theory Spec2Isabelle
  imports Complex_Main "HOL-Library.Word" "HOL-Library.Log_Nat" "HOL-Library.Multiset"
begin

section \<open>Runtime values: strings and numbers\<close>

text \<open>
  A JavaScript string is a sequence of UTF-16 code units; \<open>s.length\<close> counts code units
  and so does the edit distance of the \<open>fast-levenshtein\<close> package (it compares
  \<open>charCodeAt\<close> values).  The Devanagari tokens of the documentation are therefore
  lists of 16-bit words.
\<close>

type_synonym jsstring = "16 word list"

definition ascii :: "string \<Rightarrow> jsstring" where
  "ascii s = map (\<lambda>c. of_nat (of_char c)) s"

text \<open>
  A JavaScript number is an IEEE-754 binary64 value.  Every finite double is a rational,
  so the finite doubles are embedded in \<open>rat\<close>, and an arithmetic operation is the exact
  rational operation followed by rounding to the nearest double, ties to even
  (\<open>binary64\<close>).  The exponent is left unbounded: all values that occur below lie in
  \<open>{0} \<union> [2\<^sup>-\<^sup>5\<^sup>3 .. 2\<^sup>5\<^sup>3]\<close>, far inside the normal range of the format, where
  neither overflow nor gradual underflow happens.
\<close>

type_synonym number = rat

definition ilog2 :: "rat \<Rightarrow> int" where
  \<comment> \<open>for \<open>0 < x\<close>: the exponent \<open>e\<close> with \<open>2\<^sup>e \<le> x < 2\<^sup>e\<^sup>+\<^sup>1\<close>\<close>
  "ilog2 x = (let (p, q) = quotient_of x; k = bitlen p - bitlen q in
               if 2 powi k \<le> x then k else k - 1)"

definition roundTiesToEven :: "rat \<Rightarrow> int" where
  "roundTiesToEven r = (let f = \<lfloor>r\<rfloor>; d = r - of_int f in
      if d < 1/2 then f else if 1/2 < d then f + 1 else if even f then f else f + 1)"

definition binary64 :: "rat \<Rightarrow> number" where
  \<comment> \<open>53 significant bits: the unit in the last place of \<open>x\<close> is \<open>2\<^sup>e\<^sup>-\<^sup>5\<^sup>2\<close>\<close>
  "binary64 x = (if x = 0 then 0 else
      let u = 2 powi (ilog2 \<bar>x\<bar> - 52) in of_int (roundTiesToEven (x / u)) * u)"

definition fdiv :: "number \<Rightarrow> number \<Rightarrow> number" where
  "fdiv x y = binary64 (x / y)"

definition fsub :: "number \<Rightarrow> number \<Rightarrow> number" where
  "fsub x y = binary64 (x - y)"

definition fmul :: "number \<Rightarrow> number \<Rightarrow> number" where
  "fmul x y = binary64 (x * y)"

definition Math_round :: "number \<Rightarrow> int" where
  \<comment> \<open>the closest integer; of two equally close ones the one nearer to \<open>+\<infinity>\<close>\<close>
  "Math_round x = \<lfloor>x + 1/2\<rfloor>"

definition Math_max :: "number \<Rightarrow> number \<Rightarrow> number" where
  "Math_max x y = max x y"

section \<open>Normalizer\<close>

text \<open>
  \<open>String.prototype.normalize('NFC')\<close> and \<open>String.prototype.toLowerCase\<close> are
  built-ins driven by the Unicode character database; they are parameters \<open>nfc\<close> and
  \<open>lower\<close> of the model.  The two regular expressions and \<open>trim\<close> are written out:
  \<open>\s\<close> and \<open>trim\<close> use the same set of code units (WhiteSpace and LineTerminator of
  ECMAScript).
\<close>

definition isPunct :: "16 word \<Rightarrow> bool" where
  \<comment> \<open>the class \<open>[\<dots>,\.!?;:\-]\<close>, whose first member is the danda U+0964\<close>
  "isPunct c \<longleftrightarrow> c \<in> {0x964, 0x2C, 0x2E, 0x21, 0x3F, 0x3B, 0x3A, 0x2D}"

definition isSpace :: "16 word \<Rightarrow> bool" where
  "isSpace c \<longleftrightarrow>
     c \<in> {0x9, 0xA, 0xB, 0xC, 0xD, 0x20, 0xA0, 0x1680, 0x2028, 0x2029, 0x202F, 0x205F,
          0x3000, 0xFEFF} \<or> (0x2000 \<le> c \<and> c \<le> 0x200A)"

definition replacePunct :: "jsstring \<Rightarrow> jsstring" where
  "replacePunct s = map (\<lambda>c. if isPunct c then 0x20 else c) s"

function collapseSpace :: "jsstring \<Rightarrow> jsstring" where
  "collapseSpace [] = []"
| "collapseSpace (c # cs) =
     (if isSpace c then 0x20 # collapseSpace (dropWhile isSpace cs)
      else c # collapseSpace cs)"
  by pat_completeness auto
termination
  by (relation "measure length") (auto simp: length_dropWhile_le less_Suc_eq_le)

definition trim :: "jsstring \<Rightarrow> jsstring" where
  "trim s = rev (dropWhile isSpace (rev (dropWhile isSpace s)))"

definition normalizeText ::
  "(jsstring \<Rightarrow> jsstring) \<Rightarrow> (jsstring \<Rightarrow> jsstring) \<Rightarrow> jsstring \<Rightarrow> jsstring" where
  "normalizeText nfc lower text = trim (collapseSpace (replacePunct (lower (nfc text))))"

function splitSpace :: "jsstring \<Rightarrow> jsstring list" where
  \<comment> \<open>\<open>split(/\s+/)\<close>: the pieces between the maximal runs of white space\<close>
  "splitSpace s =
     (let w = takeWhile (\<lambda>c. \<not> isSpace c) s; r = dropWhile (\<lambda>c. \<not> isSpace c) s
      in if r = [] then [w] else w # splitSpace (dropWhile isSpace r))"
  by pat_completeness auto
termination
proof (relation "measure length")
  fix s :: jsstring and w r
  assume r: "r = dropWhile (\<lambda>c. \<not> isSpace c) s" and ne: "r \<noteq> []"
  from ne obtain c cs where rc: "r = c # cs" by (cases r) auto
  with r have "isSpace c" by (metis hd_dropWhile list.sel(1) ne)
  then have "length (dropWhile isSpace r) \<le> length cs" by (simp add: rc length_dropWhile_le)
  moreover have "length r \<le> length s" by (simp add: r length_dropWhile_le)
  ultimately show "(dropWhile isSpace r, s) \<in> measure length" by (simp add: rc)
qed simp

declare splitSpace.simps [simp del]

definition splitIntoWords ::
  "(jsstring \<Rightarrow> jsstring) \<Rightarrow> (jsstring \<Rightarrow> jsstring) \<Rightarrow> jsstring \<Rightarrow> jsstring list" where
  "splitIntoWords nfc lower text =
     filter (\<lambda>word. length word > 0) (splitSpace (normalizeText nfc lower text))"

section \<open>Character similarity\<close>

text \<open>
  Modelled from the spec: \<open>levenshtein.get\<close> of the npm package \<open>fast-levenshtein\<close>,
  which is imported by the scoring module and is not part of the repository.  The
  spec describes it as the minimum number of single-character insertions, deletions and
  substitutions, each of cost one, over the string's character units.
\<close>

fun levenshtein_get :: "jsstring \<Rightarrow> jsstring \<Rightarrow> nat" where
  "levenshtein_get [] t = length t"
| "levenshtein_get s [] = length s"
| "levenshtein_get (a # s) (b # t) =
     min (min (levenshtein_get s (b # t) + 1) (levenshtein_get (a # s) t + 1))
         (levenshtein_get s t + (if a = b then 0 else 1))"

definition calculateWordSimilarity :: "jsstring \<Rightarrow> jsstring \<Rightarrow> int" where
  "calculateWordSimilarity word1 word2 =
     (let distance = levenshtein_get word1 word2;
          maxLength = max (length word1) (length word2)
      in if maxLength = 0 then 100
         else let similarity =
                    Math_max 0 (fmul (fsub 1 (fdiv (of_nat distance) (of_nat maxLength))) 100)
              in Math_round similarity)"

section \<open>Aligner\<close>

definition MIN_SIMILARITY_THRESHOLD :: int where
  "MIN_SIMILARITY_THRESHOLD = 30"

record pair =
  refIdx :: nat
  spokenIdx :: nat
  similarity :: int

record aligned =
  refWord :: jsstring
  spokenWord :: jsstring
  similarity :: int

record selection =
  matches :: "pair list"
  matchedRef :: "nat set"
  matchedSpoken :: "nat set"

text \<open>
  \<open>Array.prototype.sort\<close> with a comparator is a stable sort (ECMAScript 2019, and every
  Node.js release since version 11): an element moves in front of another only if the
  comparator puts it strictly first.  For a consistent comparator that fixes the result,
  which insertion from the right computes.
\<close>

fun insertBy :: "('a \<Rightarrow> 'a \<Rightarrow> int) \<Rightarrow> 'a \<Rightarrow> 'a list \<Rightarrow> 'a list" where
  "insertBy cmp x [] = [x]"
| "insertBy cmp x (y # ys) = (if cmp x y \<le> 0 then x # y # ys else y # insertBy cmp x ys)"

definition Array_sort :: "('a \<Rightarrow> 'a \<Rightarrow> int) \<Rightarrow> 'a list \<Rightarrow> 'a list" where
  "Array_sort cmp xs = foldr (insertBy cmp) xs []"

definition similarityMatrix :: "jsstring list \<Rightarrow> jsstring list \<Rightarrow> int list list" where
  "similarityMatrix referenceWords spokenWords =
     map (\<lambda>i. map (\<lambda>j. calculateWordSimilarity (referenceWords ! i) (spokenWords ! j))
                 [0..<length spokenWords])
         [0..<length referenceWords]"

definition allPairs :: "jsstring list \<Rightarrow> jsstring list \<Rightarrow> pair list" where
  "allPairs referenceWords spokenWords =
     concat (map (\<lambda>i. map (\<lambda>j. \<lparr>refIdx = i, spokenIdx = j,
                                 similarity = similarityMatrix referenceWords spokenWords ! i ! j\<rparr>)
                         [0..<length spokenWords])
                 [0..<length referenceWords])"

definition sortedPairs :: "jsstring list \<Rightarrow> jsstring list \<Rightarrow> pair list" where
  "sortedPairs referenceWords spokenWords =
     Array_sort (\<lambda>a b. pair.similarity b - pair.similarity a) (allPairs referenceWords spokenWords)"

definition select :: "pair \<Rightarrow> selection \<Rightarrow> selection" where
  \<comment> \<open>the body of the loop over the sorted candidates\<close>
  "select p st =
     (if refIdx p \<notin> matchedRef st \<and> spokenIdx p \<notin> matchedSpoken st
      then (if pair.similarity p \<ge> MIN_SIMILARITY_THRESHOLD
            then \<lparr>matches = matches st @ [p],
                  matchedRef = insert (refIdx p) (matchedRef st),
                  matchedSpoken = insert (spokenIdx p) (matchedSpoken st)\<rparr>
            else st)
      else st)"

definition greedy :: "jsstring list \<Rightarrow> jsstring list \<Rightarrow> selection" where
  "greedy referenceWords spokenWords =
     fold select (sortedPairs referenceWords spokenWords)
       \<lparr>matches = [], matchedRef = {}, matchedSpoken = {}\<rparr>"

definition alignWords :: "jsstring list \<Rightarrow> jsstring list \<Rightarrow> aligned list" where
  "alignWords referenceWords spokenWords =
     (let m = length referenceWords; n = length spokenWords in
      if m = 0 \<and> n = 0 then []
      else if m = 0 then
        map (\<lambda>w. \<lparr>refWord = ascii ''(extra)'', spokenWord = w, similarity = 0\<rparr>) spokenWords
      else if n = 0 then
        map (\<lambda>w. \<lparr>refWord = w, spokenWord = ascii ''(missing)'', similarity = 0\<rparr>) referenceWords
      else
        let st = greedy referenceWords spokenWords in
        map (\<lambda>i. case find (\<lambda>m. refIdx m = i) (matches st) of
                    Some match \<Rightarrow> \<lparr>refWord = referenceWords ! i,
                                   spokenWord = spokenWords ! spokenIdx match,
                                   similarity = pair.similarity match\<rparr>
                  | None \<Rightarrow> \<lparr>refWord = referenceWords ! i,
                            spokenWord = ascii ''(missing)'', similarity = 0\<rparr>)
            [0..<m]
        @ map (\<lambda>j. \<lparr>refWord = ascii ''(extra)'', spokenWord = spokenWords ! j, similarity = 0\<rparr>)
              (filter (\<lambda>j. j \<notin> matchedSpoken st) [0..<n]))"

text \<open>
  The objects that \<open>alignWords\<close> returns carry words, not indices, and the two sentinel
  strings are ordinary strings.  The claims about indices are stated on the trace of the
  same two loops, which records for every emitted object the branch that emitted it and
  the indices it was built from; \<open>entryOf\<close> maps a trace entry back to the object.
\<close>

datatype entry = Matched nat nat int | Missing nat | Extra nat

definition alignTrace :: "jsstring list \<Rightarrow> jsstring list \<Rightarrow> entry list" where
  "alignTrace referenceWords spokenWords =
     (let m = length referenceWords; n = length spokenWords in
      if m = 0 \<and> n = 0 then []
      else if m = 0 then map Extra [0..<n]
      else if n = 0 then map Missing [0..<m]
      else
        let st = greedy referenceWords spokenWords in
        map (\<lambda>i. case find (\<lambda>m. refIdx m = i) (matches st) of
                    Some match \<Rightarrow> Matched i (spokenIdx match) (pair.similarity match)
                  | None \<Rightarrow> Missing i)
            [0..<m]
        @ map Extra (filter (\<lambda>j. j \<notin> matchedSpoken st) [0..<n]))"

fun entryOf :: "jsstring list \<Rightarrow> jsstring list \<Rightarrow> entry \<Rightarrow> aligned" where
  "entryOf rs ss (Matched i j s) = \<lparr>refWord = rs ! i, spokenWord = ss ! j, similarity = s\<rparr>"
| "entryOf rs ss (Missing i) = \<lparr>refWord = rs ! i, spokenWord = ascii ''(missing)'', similarity = 0\<rparr>"
| "entryOf rs ss (Extra j) = \<lparr>refWord = ascii ''(extra)'', spokenWord = ss ! j, similarity = 0\<rparr>"

fun refIndex :: "entry \<Rightarrow> nat option" where
  "refIndex (Matched i j s) = Some i"
| "refIndex (Missing i) = Some i"
| "refIndex (Extra j) = None"

fun spokenIndex :: "entry \<Rightarrow> nat option" where
  "spokenIndex (Matched i j s) = Some j"
| "spokenIndex (Missing i) = None"
| "spokenIndex (Extra j) = Some j"

section \<open>Scoring entry point\<close>

record wordScore =
  word :: jsstring
  transcribedWord :: jsstring
  score :: int

record scores =
  transcription :: jsstring
  wordScores :: "wordScore list"
  overallScore :: int
  methodName :: string  \<comment> \<open>the property \<open>method\<close> of the returned object\<close>

definition overall :: "wordScore list \<Rightarrow> int" where
  \<comment> \<open>\<open>reduce\<close> from 0, one double division, \<open>Math.round\<close>\<close>
  "overall ws =
     (let totalScore = fold (\<lambda>ws sum. sum + score ws) ws 0 in
      if length ws > 0 then Math_round (fdiv (of_int totalScore) (of_nat (length ws))) else 0)"

definition calculateLevenshteinScores ::
  "(jsstring \<Rightarrow> jsstring) \<Rightarrow> (jsstring \<Rightarrow> jsstring) \<Rightarrow> jsstring \<Rightarrow> jsstring \<Rightarrow> scores" where
  "calculateLevenshteinScores nfc lower = (\<lambda>transcription referenceText.
      let referenceWords = splitIntoWords nfc lower referenceText;
          transcribedWords = splitIntoWords nfc lower transcription;
          alignment = alignWords referenceWords transcribedWords;
          wordScores = map (\<lambda>a. \<lparr>word = refWord a, transcribedWord = spokenWord a,
                                  score = aligned.similarity a\<rparr>) alignment
      in \<lparr>transcription = transcription, wordScores = wordScores,
          overallScore = overall wordScores,
          methodName = ''Sequence Alignment (Levenshtein)''\<rparr>)"

section \<open>Auxiliary notions for the proofs\<close>

text \<open>
  The invariant of the selection loop over a candidate list \<open>ps\<close>: no index is matched
  twice, the two sets are exactly the indices of the recorded matches, and every recorded
  match is a candidate that reaches the threshold.
\<close>

definition consistent :: "pair list \<Rightarrow> selection \<Rightarrow> bool" where
  "consistent ps st \<longleftrightarrow>
     distinct (map refIdx (matches st)) \<and> distinct (map spokenIdx (matches st)) \<and>
     matchedRef st = refIdx ` set (matches st) \<and>
     matchedSpoken st = spokenIdx ` set (matches st) \<and>
     set (matches st) \<subseteq> {p \<in> set ps. MIN_SIMILARITY_THRESHOLD \<le> pair.similarity p}"

text \<open>The entry that the first output loop emits for reference index \<open>i\<close>.\<close>

definition refEntry :: "pair list \<Rightarrow> nat \<Rightarrow> entry" where
  "refEntry ms i = (case find (\<lambda>m. refIdx m = i) ms of
                      Some match \<Rightarrow> Matched i (spokenIdx match) (pair.similarity match)
                    | None \<Rightarrow> Missing i)"

text \<open>
  A string is collapsed when each of its white-space characters is U+0020 and is followed
  by a character that is not white space, or by nothing.
\<close>

fun collapsed :: "jsstring \<Rightarrow> bool" where
  "collapsed [] = True"
| "collapsed [c] = (isSpace c \<longrightarrow> c = 0x20)"
| "collapsed (c # d # s) = ((isSpace c \<longrightarrow> c = 0x20 \<and> \<not> isSpace d) \<and> collapsed (d # s))"

text \<open>
  The two built-ins on a fragment of Unicode, for running the normaliser on concrete
  strings.  On a string whose cased characters are all Basic Latin letters,
  \<open>toLowerCase\<close> maps \<open>A\<close>--\<open>Z\<close> to \<open>a\<close>--\<open>z\<close> and keeps the rest.  On a string
  made of \<open>J\<close>, \<open>j\<close>, U+030C (combining caron), U+01F0 (small j with caron) and
  spaces, \<open>normalize('NFC')\<close> composes \<open>j\<close> followed by U+030C into U+01F0 and
  changes nothing else: Unicode has no precomposed capital J with caron.
\<close>

definition lowerBasicLatin :: "jsstring \<Rightarrow> jsstring" where
  "lowerBasicLatin s = map (\<lambda>c. if 0x41 \<le> c \<and> c \<le> 0x5A then c + 0x20 else c) s"

fun composeJCaron :: "jsstring \<Rightarrow> jsstring" where
  "composeJCaron (c # d # s) =
     (if c = 0x6A \<and> d = 0x30C then 0x1F0 # composeJCaron s else c # composeJCaron (d # s))"
| "composeJCaron s = s"

text \<open>
  The double that \<open>calculateWordSimilarity\<close> hands to \<open>Math.max\<close>, for edit distance
  \<open>d\<close> and maximal length \<open>L\<close>.
\<close>

definition scaled :: "nat \<Rightarrow> nat \<Rightarrow> number" where
  "scaled d L = fmul (fsub 1 (fdiv (of_nat d) (of_nat L))) 100"

text \<open>
  The selection in which the first \<open>k\<close> reference tokens are matched, each to the spoken
  token of the same index, with similarity 100.
\<close>

definition diagonal :: "nat \<Rightarrow> selection" where
  "diagonal k = \<lparr>matches = map (\<lambda>i. \<lparr>refIdx = i, spokenIdx = i, similarity = 100\<rparr>) [0..<k],
                 matchedRef = {0..<k}, matchedSpoken = {0..<k}\<rparr>"

section \<open>The normaliser\<close>

lemma isSpace_20: "isSpace 0x20" by (simp add: isSpace_def)
lemma not_isPunct_20: "\<not> isPunct 0x20" by (simp add: isPunct_def)

lemma replacePunct_no_punct: "c \<in> set (replacePunct s) \<Longrightarrow> \<not> isPunct c"
  by (auto simp: replacePunct_def not_isPunct_20)

lemma replacePunct_id: "\<forall>c\<in>set s. \<not> isPunct c \<Longrightarrow> replacePunct s = s"
  by (simp add: replacePunct_def map_idI)

lemma set_collapseSpace: "set (collapseSpace s) \<subseteq> insert 0x20 (set s)"
proof (induction s rule: collapseSpace.induct)
  case 1
  then show ?case by simp
next
  case (2 c cs)
  have "set (dropWhile isSpace cs) \<subseteq> set cs" by (meson set_dropWhileD subsetI)
  with 2 show ?case by auto
qed

lemma set_trim: "set (trim s) \<subseteq> set s"
proof
  fix c assume "c \<in> set (trim s)"
  then have "c \<in> set (dropWhile isSpace (rev (dropWhile isSpace s)))" by (simp add: trim_def)
  then have "c \<in> set (dropWhile isSpace s)" using set_dropWhileD by fastforce
  then show "c \<in> set s" by (rule set_dropWhileD)
qed

lemma normalizeText_no_punct: "c \<in> set (normalizeText nfc lower x) \<Longrightarrow> \<not> isPunct c"
proof -
  assume "c \<in> set (normalizeText nfc lower x)"
  then have "c \<in> insert 0x20 (set (replacePunct (lower (nfc x))))"
    unfolding normalizeText_def using set_trim set_collapseSpace by blast
  then show ?thesis using replacePunct_no_punct not_isPunct_20 by auto
qed

lemma collapsed_Cons_nonspace: "\<not> isSpace c \<Longrightarrow> collapsed (c # s) = collapsed s"
  by (cases s) simp_all

lemma collapsed_collapseSpace: "collapsed (collapseSpace s)"
proof (induction s rule: collapseSpace.induct)
  case 1
  then show ?case by simp
next
  case (2 c cs)
  show ?case
  proof (cases "isSpace c")
    case False
    with 2 show ?thesis by (simp add: collapsed_Cons_nonspace)
  next
    case True
    show ?thesis
    proof (cases "dropWhile isSpace cs")
      case Nil
      with True have "collapseSpace (c # cs) = [0x20]"
        by (simp only: collapseSpace.simps if_True)
      then show ?thesis by simp
    next
      case (Cons d t)
      then have d: "\<not> isSpace d" by (metis hd_dropWhile list.distinct(1) list.sel(1))
      from True Cons have e: "collapseSpace (c # cs) = 0x20 # collapseSpace (d # t)"
        by (simp only: collapseSpace.simps if_True)
      from 2(1)[OF True] Cons have "collapsed (collapseSpace (d # t))" by (simp only:)
      with d show ?thesis unfolding e by (simp add: isSpace_20)
    qed
  qed
qed

lemma collapseSpace_id: "collapsed s \<Longrightarrow> collapseSpace s = s"
  by (induction s rule: collapsed.induct) auto

lemma collapsed_suffix: "collapsed (xs @ ys) \<Longrightarrow> collapsed ys"
proof (induction xs)
  case Nil
  then show ?case by simp
next
  case (Cons x xs)
  then have "collapsed (xs @ ys)" by (cases "xs @ ys") auto
  with Cons.IH show ?case .
qed

lemma collapsed_prefix: "collapsed (xs @ ys) \<Longrightarrow> collapsed xs"
proof (induction xs rule: collapsed.induct)
  case 1
  then show ?case by simp
next
  case (2 c)
  then show ?case by (cases ys) auto
next
  case (3 c d s)
  then show ?case by auto
qed

lemma collapsed_trim: "collapsed s \<Longrightarrow> collapsed (trim s)"
proof -
  assume s: "collapsed s"
  let ?t = "dropWhile isSpace s"
  have "takeWhile isSpace s @ ?t = s" by simp
  with s have t: "collapsed ?t" by (metis collapsed_suffix)
  have "rev (dropWhile isSpace (rev ?t)) @ rev (takeWhile isSpace (rev ?t)) = ?t"
    by (metis rev_append rev_rev_ident takeWhile_dropWhile_id)
  with t have "collapsed (rev (dropWhile isSpace (rev ?t)))" by (metis collapsed_prefix)
  then show ?thesis by (simp add: trim_def)
qed

lemma trim_idem: "trim (trim s) = trim s"
proof -
  let ?t = "dropWhile isSpace s"
  let ?r = "rev (dropWhile isSpace (rev ?t))"
  have split: "?r @ rev (takeWhile isSpace (rev ?t)) = ?t"
    by (metis rev_append rev_rev_ident takeWhile_dropWhile_id)
  have "?r = [] \<or> \<not> isSpace (hd ?r)"
  proof (cases "?r = []")
    case True
    then show ?thesis by blast
  next
    case False
    then have "hd ?r = hd ?t" by (metis split hd_append2)
    moreover from False have "?t \<noteq> []" by (metis split append_is_Nil_conv)
    then have "\<not> isSpace (hd ?t)" by (rule hd_dropWhile)
    ultimately show ?thesis by (simp only:) blast
  qed
  then have front: "dropWhile isSpace ?r = ?r" by (simp only: dropWhile_eq_self_iff)
  have "trim (trim s) = rev (dropWhile isSpace (rev (dropWhile isSpace ?r)))"
    by (simp add: trim_def)
  also have "\<dots> = ?r" by (simp only: front rev_rev_ident dropWhile_idem)
  finally show ?thesis by (simp add: trim_def)
qed

text \<open>
  Claim C8, as the code supports it.  If the normalised text is itself unchanged by the
  two built-ins (it is in NFC and in lower case), normalising it again changes nothing,
  and its tokens are those of the original text.  The last three passes are idempotent by
  themselves; only lowercasing after composing can leave a text that composes further.
\<close>

theorem normalizeText_idempotent_on_stable:
  "nfc (normalizeText nfc lower x) = normalizeText nfc lower x \<and>
   lower (normalizeText nfc lower x) = normalizeText nfc lower x
   \<longrightarrow> normalizeText nfc lower (normalizeText nfc lower x) = normalizeText nfc lower x \<and>
       splitIntoWords nfc lower (normalizeText nfc lower x) = splitIntoWords nfc lower x"
proof (intro impI)
  let ?y = "normalizeText nfc lower x"
  assume stable: "nfc ?y = ?y \<and> lower ?y = ?y"
  have y: "?y = trim (collapseSpace (replacePunct (lower (nfc x))))"
    by (simp add: normalizeText_def)
  have "normalizeText nfc lower ?y = trim (collapseSpace (replacePunct ?y))"
    using stable by (simp add: normalizeText_def)
  also have "replacePunct ?y = ?y"
    by (rule replacePunct_id) (simp add: normalizeText_no_punct)
  also have "collapseSpace ?y = ?y"
    by (rule collapseSpace_id) (simp add: y collapsed_trim collapsed_collapseSpace)
  also have "trim ?y = ?y" by (simp add: y trim_idem)
  finally have idem: "normalizeText nfc lower ?y = ?y" .
  then show "normalizeText nfc lower ?y = ?y \<and>
             splitIntoWords nfc lower ?y = splitIntoWords nfc lower x"
    by (simp add: splitIntoWords_def)
qed

theorem normalizeText_idempotent_on_stable_witness:
  "normalizeText (\<lambda>s. s) lowerBasicLatin [0x20, 0x41, 0x2C, 0x20, 0x20, 0x62, 0x20] = [0x61, 0x20, 0x62] \<and>
   normalizeText (\<lambda>s. s) lowerBasicLatin [0x61, 0x20, 0x62] = [0x61, 0x20, 0x62] \<and>
   splitIntoWords (\<lambda>s. s) lowerBasicLatin [0x61, 0x20, 0x62] = [[0x61], [0x62]]"
proof -
  have n: "normalizeText (\<lambda>s. s) lowerBasicLatin [0x20, 0x41, 0x2C, 0x20, 0x20, 0x62, 0x20]
           = [0x61, 0x20, 0x62]" by code_simp
  have l: "lowerBasicLatin [0x61, 0x20, 0x62] = [0x61, 0x20, 0x62]" by code_simp
  have w: "splitIntoWords (\<lambda>s. s) lowerBasicLatin [0x20, 0x41, 0x2C, 0x20, 0x20, 0x62, 0x20]
           = [[0x61], [0x62]]" by code_simp
  from normalizeText_idempotent_on_stable[of "\<lambda>s. s" lowerBasicLatin
      "[0x20, 0x41, 0x2C, 0x20, 0x20, 0x62, 0x20]"]
  show ?thesis by (simp add: n l w)
qed

text \<open>
  Normalisation is not idempotent on every string: \<open>J\<close> followed by U+030C is in NFC,
  its lower case \<open>j\<close> followed by U+030C is not, and a second pass composes it into
  U+01F0.
\<close>

theorem normalizeText_idempotent_counterexample:
  "normalizeText composeJCaron lowerBasicLatin [0x4A, 0x30C] = [0x6A, 0x30C] \<and>
   normalizeText composeJCaron lowerBasicLatin
     (normalizeText composeJCaron lowerBasicLatin [0x4A, 0x30C]) = [0x1F0] \<and>
   normalizeText composeJCaron lowerBasicLatin
     (normalizeText composeJCaron lowerBasicLatin [0x4A, 0x30C])
     \<noteq> normalizeText composeJCaron lowerBasicLatin [0x4A, 0x30C] \<and>
   splitIntoWords composeJCaron lowerBasicLatin
     (normalizeText composeJCaron lowerBasicLatin [0x4A, 0x30C])
     \<noteq> splitIntoWords composeJCaron lowerBasicLatin [0x4A, 0x30C]"
proof -
  have a: "normalizeText composeJCaron lowerBasicLatin [0x4A, 0x30C] = [0x6A, 0x30C]"
    by code_simp
  have b: "normalizeText composeJCaron lowerBasicLatin [0x6A, 0x30C] = [0x1F0]"
    by code_simp
  have c: "normalizeText composeJCaron lowerBasicLatin [0x1F0] = [0x1F0]"
    by code_simp
  have d: "splitSpace [0x1F0] = [[0x1F0]]" "splitSpace [0x6A, 0x30C] = [[0x6A, 0x30C]]"
    by code_simp+
  show ?thesis by (simp add: a b c d splitIntoWords_def)
qed

section \<open>Rounding to binary64\<close>

lemma ilog2_lower:
  assumes "0 < x"
  shows "2 powi (ilog2 x) \<le> x"
proof -
  obtain p q where pq: "quotient_of x = (p, q)" by force
  have q: "0 < q" by (rule quotient_of_denom_pos[OF pq])
  have x: "x = of_int p / of_int q" by (rule quotient_of_div[OF pq])
  have p: "0 < p" using assms q unfolding x by (simp add: zero_less_divide_iff)
  let ?k = "bitlen p - bitlen q"
  show ?thesis
  proof (cases "2 powi ?k \<le> x")
    case True
    then show ?thesis by (simp add: ilog2_def pq)
  next
    case False
    then have e: "ilog2 x = ?k - 1" by (simp add: ilog2_def pq)
    have bp: "0 < bitlen p" using p bitlen_nonneg[of p] bitlen_eq_zero_iff[of p] by linarith
    have bq: "0 < bitlen q" using q bitlen_nonneg[of q] bitlen_eq_zero_iff[of q] by linarith
    from bitlen_bounds[OF p] have "(2::int) ^ nat (bitlen p - 1) \<le> p" by simp
    then have "(of_int ((2::int) ^ nat (bitlen p - 1)) :: rat) \<le> of_int p"
      by (simp only: of_int_le_iff)
    then have lp: "(2::rat) powi (bitlen p - 1) \<le> of_int p"
      using bp by (simp add: power_int_def)
    from bitlen_bounds[OF q] have "q < (2::int) ^ nat (bitlen q)" by simp
    then have "(of_int q :: rat) < of_int ((2::int) ^ nat (bitlen q))"
      by (simp only: of_int_less_iff)
    then have uq: "(of_int q :: rat) \<le> 2 powi (bitlen q)"
      using bq by (simp add: power_int_def)
    have "(2::rat) powi (?k - 1) = 2 powi (bitlen p - 1) / 2 powi (bitlen q)"
      by (simp add: power_int_diff)
    also have "\<dots> \<le> of_int p / of_int q"
      by (rule frac_le) (use lp uq q p in simp_all)
    finally have "(2::rat) powi (?k - 1) \<le> of_int p / of_int q" .
    then have "(2::rat) powi (?k - 1) \<le> x" by (simp only: x[symmetric])
    then show ?thesis by (simp only: e)
  qed
qed

lemma ilog2_less:
  assumes "0 < x" "x < 2 powi E"
  shows "ilog2 x < E"
proof (rule ccontr)
  assume "\<not> ilog2 x < E"
  then have "(2::rat) powi E \<le> 2 powi (ilog2 x)"
    by (intro power_int_increasing) simp_all
  with ilog2_lower[OF assms(1)] assms(2) show False by simp
qed

lemma rne_cases: "roundTiesToEven r = \<lfloor>r\<rfloor> \<or> roundTiesToEven r = \<lfloor>r\<rfloor> + 1"
  by (simp add: roundTiesToEven_def Let_def)

lemma rne_error: "\<bar>of_int (roundTiesToEven r) - r\<bar> \<le> 1/2"
proof -
  have a: "of_int \<lfloor>r\<rfloor> \<le> r" "r < of_int \<lfloor>r\<rfloor> + 1" by linarith+
  consider "r - of_int \<lfloor>r\<rfloor> < 1/2" | "1/2 < r - of_int \<lfloor>r\<rfloor>"
    | "r - of_int \<lfloor>r\<rfloor> = 1/2" by linarith
  then show ?thesis
  proof cases
    case 1
    then have "roundTiesToEven r = \<lfloor>r\<rfloor>" by (simp add: roundTiesToEven_def Let_def)
    with a 1 show ?thesis by simp
  next
    case 2
    then have "roundTiesToEven r = \<lfloor>r\<rfloor> + 1" by (simp add: roundTiesToEven_def Let_def)
    with a 2 show ?thesis by simp
  next
    case 3
    with rne_cases[of r] a show ?thesis by auto
  qed
qed

lemma rne_ge:
  assumes "of_int N \<le> r"
  shows "N \<le> roundTiesToEven r"
proof -
  from assms have "N \<le> \<lfloor>r\<rfloor>" by (simp add: le_floor_iff)
  with rne_cases[of r] show ?thesis by auto
qed

lemma rne_le:
  assumes "r \<le> of_int N"
  shows "roundTiesToEven r \<le> N"
proof (cases "r = of_int \<lfloor>r\<rfloor>")
  case True
  then have "r - of_int \<lfloor>r\<rfloor> < 1/2" by simp
  then have "roundTiesToEven r = \<lfloor>r\<rfloor>" by (simp add: roundTiesToEven_def Let_def)
  moreover from assms have "\<lfloor>r\<rfloor> \<le> N" by (simp add: floor_le_iff)
  ultimately show ?thesis by simp
next
  case False
  then have "of_int \<lfloor>r\<rfloor> < r" by (metis of_int_floor_le order_le_less)
  with assms have "of_int \<lfloor>r\<rfloor> < (of_int N :: rat)" by linarith
  then have "\<lfloor>r\<rfloor> < N" by (simp only: of_int_less_iff)
  with rne_cases[of r] show ?thesis by auto
qed

lemma binary64_0: "binary64 0 = 0"
  by (simp add: binary64_def)

lemma binary64_unfold:
  "x \<noteq> 0 \<Longrightarrow> binary64 x =
     of_int (roundTiesToEven (x / 2 powi (ilog2 \<bar>x\<bar> - 52))) * 2 powi (ilog2 \<bar>x\<bar> - 52)"
  by (simp add: binary64_def Let_def)

lemma binary64_error:
  assumes "x \<noteq> 0" "\<bar>x\<bar> < 2 powi E"
  shows "\<bar>binary64 x - x\<bar> \<le> 2 powi (E - 54)"
proof -
  let ?e = "ilog2 \<bar>x\<bar>"
  let ?u = "(2::rat) powi (?e - 52)"
  have u: "0 < ?u" by simp
  have e: "?e < E" using assms by (intro ilog2_less) simp_all
  have "binary64 x - x = (of_int (roundTiesToEven (x / ?u)) - x / ?u) * ?u"
    using u by (simp add: binary64_unfold[OF assms(1)] field_simps)
  then have "\<bar>binary64 x - x\<bar> = \<bar>of_int (roundTiesToEven (x / ?u)) - x / ?u\<bar> * ?u"
    using u by (simp add: abs_mult)
  also have "\<dots> \<le> 1/2 * ?u"
    by (rule mult_right_mono[OF rne_error]) simp
  also have "1/2 * ?u = 2 powi (?e - 53)"
    by (simp add: power_int_diff)
  also have "\<dots> \<le> 2 powi (E - 54)"
    using e by (intro power_int_increasing) simp_all
  finally show ?thesis .
qed

lemma binary64_nonneg: "0 \<le> x \<Longrightarrow> 0 \<le> binary64 x"
proof (cases "x = 0")
  case True
  then show ?thesis by (simp add: binary64_0)
next
  case False
  assume "0 \<le> x"
  then have "of_int 0 \<le> x / 2 powi (ilog2 \<bar>x\<bar> - 52)" by simp
  then have "0 \<le> roundTiesToEven (x / 2 powi (ilog2 \<bar>x\<bar> - 52))" by (rule rne_ge)
  then show ?thesis by (simp add: binary64_unfold[OF False])
qed

lemma binary64_nonpos: "x \<le> 0 \<Longrightarrow> binary64 x \<le> 0"
proof (cases "x = 0")
  case True
  then show ?thesis by (simp add: binary64_0)
next
  case False
  assume "x \<le> 0"
  then have "x / 2 powi (ilog2 \<bar>x\<bar> - 52) \<le> of_int 0" by (simp add: divide_nonpos_pos)
  then have "roundTiesToEven (x / 2 powi (ilog2 \<bar>x\<bar> - 52)) \<le> 0" by (rule rne_le)
  then show ?thesis by (simp add: binary64_unfold[OF False] mult_le_0_iff)
qed

lemma dyadic_on_grid:
  assumes "e + int j \<le> 52"
  shows "of_int a / 2 ^ j = of_int (a * 2 ^ nat (52 - e - int j)) * (2::rat) powi (e - 52)"
proof -
  have "(2::rat) ^ nat (52 - e - int j) = 2 powi (52 - e - int j)"
    using assms by (simp add: power_int_def)
  also have "\<dots> = 2 powi (52 - e) / 2 ^ j"
    by (simp add: power_int_diff)
  finally have "of_int (a * 2 ^ nat (52 - e - int j)) * (2::rat) powi (e - 52)
        = of_int a * (2 powi (52 - e) * 2 powi (e - 52)) / 2 ^ j"
    by simp
  also have "(2::rat) powi (52 - e) * 2 powi (e - 52) = 1"
    by (simp flip: power_int_add)
  finally show ?thesis by simp
qed

lemma binary64_le_dyadic:
  assumes "0 < x" "x \<le> of_int a / 2 ^ j" "x < 2 powi E" "E + int j \<le> 53"
  shows "binary64 x \<le> of_int a / 2 ^ j"
proof -
  let ?e = "ilog2 \<bar>x\<bar>"
  let ?u = "(2::rat) powi (?e - 52)"
  let ?N = "a * 2 ^ nat (52 - ?e - int j)"
  have u: "0 < ?u" by simp
  have "?e < E" using assms by (intro ilog2_less) simp_all
  with assms(4) have "?e + int j \<le> 52" by simp
  then have grid: "of_int a / 2 ^ j = of_int ?N * ?u" by (rule dyadic_on_grid)
  with assms(2) have "x \<le> of_int ?N * ?u" by simp
  then have "x / ?u \<le> of_int ?N" using u by (simp add: pos_divide_le_eq)
  then have "roundTiesToEven (x / ?u) \<le> ?N" by (rule rne_le)
  then have "(of_int (roundTiesToEven (x / ?u)) :: rat) \<le> of_int ?N"
    by (simp only: of_int_le_iff)
  then have "of_int (roundTiesToEven (x / ?u)) * ?u \<le> of_int ?N * ?u"
    using u by (simp only: mult_le_cancel_right_pos)
  with assms(1) show ?thesis by (simp only: grid binary64_unfold[of x])
qed

lemma binary64_ge_dyadic:
  assumes "0 < x" "of_int a / 2 ^ j \<le> x" "x < 2 powi E" "E + int j \<le> 53"
  shows "of_int a / 2 ^ j \<le> binary64 x"
proof -
  let ?e = "ilog2 \<bar>x\<bar>"
  let ?u = "(2::rat) powi (?e - 52)"
  let ?N = "a * 2 ^ nat (52 - ?e - int j)"
  have u: "0 < ?u" by simp
  have "?e < E" using assms by (intro ilog2_less) simp_all
  with assms(4) have "?e + int j \<le> 52" by simp
  then have grid: "of_int a / 2 ^ j = of_int ?N * ?u" by (rule dyadic_on_grid)
  with assms(2) have "of_int ?N * ?u \<le> x" by simp
  then have "of_int ?N \<le> x / ?u" using u by (simp add: pos_le_divide_eq)
  then have "?N \<le> roundTiesToEven (x / ?u)" by (rule rne_ge)
  then have "(of_int ?N :: rat) \<le> of_int (roundTiesToEven (x / ?u))"
    by (simp only: of_int_le_iff)
  then have "of_int ?N * ?u \<le> of_int (roundTiesToEven (x / ?u)) * ?u"
    using u by (simp only: mult_le_cancel_right_pos)
  with assms(1) show ?thesis by (simp only: grid binary64_unfold[of x])
qed

lemma binary64_unit:
  assumes "0 \<le> x" "x \<le> 1"
  shows "0 \<le> binary64 x" "binary64 x \<le> 1" "\<bar>binary64 x - x\<bar> \<le> 2 powi (- 53)"
proof -
  show "0 \<le> binary64 x" by (rule binary64_nonneg[OF assms(1)])
  show "binary64 x \<le> 1"
  proof (cases "x = 0")
    case True
    then show ?thesis by (simp add: binary64_0)
  next
    case False
    with assms have "binary64 x \<le> of_int 1 / 2 ^ 0"
      by (intro binary64_le_dyadic[where E = 1]) simp_all
    then show ?thesis by simp
  qed
  show "\<bar>binary64 x - x\<bar> \<le> 2 powi (- 53)"
  proof (cases "x = 0")
    case True
    then show ?thesis by (simp add: binary64_0)
  next
    case False
    with assms have "\<bar>binary64 x - x\<bar> \<le> 2 powi (1 - 54)"
      by (intro binary64_error) simp_all
    then show ?thesis by simp
  qed
qed

lemma binary64_upto_100:
  assumes "0 \<le> x" "x \<le> 100"
  shows "0 \<le> binary64 x" "binary64 x \<le> 100" "\<bar>binary64 x - x\<bar> \<le> 2 powi (- 47)"
proof -
  show "0 \<le> binary64 x" by (rule binary64_nonneg[OF assms(1)])
  show "binary64 x \<le> 100"
  proof (cases "x = 0")
    case True
    then show ?thesis by (simp add: binary64_0)
  next
    case False
    with assms have "binary64 x \<le> of_int 100 / 2 ^ 0"
      by (intro binary64_le_dyadic[where E = 7]) simp_all
    then show ?thesis by simp
  qed
  show "\<bar>binary64 x - x\<bar> \<le> 2 powi (- 47)"
  proof (cases "x = 0")
    case True
    then show ?thesis by (simp add: binary64_0)
  next
    case False
    with assms have "\<bar>binary64 x - x\<bar> \<le> 2 powi (7 - 54)"
      by (intro binary64_error) simp_all
    then show ?thesis by simp
  qed
qed

lemma binary64_100: "binary64 100 = 100"
  by code_simp

lemma binary64_1: "binary64 1 = 1"
  by code_simp

lemma floor_100_half: "\<lfloor>201 / 2 :: rat\<rfloor> = 100"
  by code_simp

section \<open>Similarity of two tokens\<close>

lemma levenshtein_le_max: "levenshtein_get s t \<le> max (length s) (length t)"
  by (induction s t rule: levenshtein_get.induct) auto

lemma levenshtein_ge_diff: "length s - length t \<le> levenshtein_get s t"
  by (induction s t rule: levenshtein_get.induct) auto

lemma levenshtein_Nil2: "levenshtein_get s [] = length s"
  by (cases s) simp_all

lemma levenshtein_append_le: "levenshtein_get (xs @ ys) xs \<le> length ys"
  by (induction xs) (simp_all add: levenshtein_Nil2 min.coboundedI2)

lemma levenshtein_append: "levenshtein_get (xs @ ys) xs = length ys"
  using levenshtein_append_le[of xs ys] levenshtein_ge_diff[of "xs @ ys" xs] by simp

lemma levenshtein_refl: "levenshtein_get s s = 0"
  by (induction s) simp_all

lemma scaled_le_100: "scaled d L \<le> 100"
proof -
  let ?y = "fdiv (of_nat d) (of_nat L)"
  let ?z = "fsub 1 ?y"
  have y: "0 \<le> ?y" unfolding fdiv_def by (rule binary64_nonneg) simp
  show ?thesis
  proof (cases "0 \<le> 1 - ?y")
    case True
    moreover from y have "1 - ?y \<le> 1" by simp
    ultimately have z: "0 \<le> ?z" "?z \<le> 1"
      unfolding fsub_def by (rule binary64_unit)+
    then have "binary64 (?z * 100) \<le> 100" by (intro binary64_upto_100) simp_all
    then show ?thesis by (simp add: scaled_def fmul_def)
  next
    case False
    then have "?z \<le> 0" unfolding fsub_def by (intro binary64_nonpos) simp
    then have "binary64 (?z * 100) \<le> 0" by (intro binary64_nonpos) (simp add: mult_le_0_iff)
    then show ?thesis by (simp add: scaled_def fmul_def)
  qed
qed

lemma abs3: "\<bar>a + 100 * b - 100 * c\<bar> \<le> \<bar>a\<bar> + 100 * \<bar>b\<bar> + 100 * \<bar>c\<bar>" for a b c :: rat
  by linarith

lemma error_chain:
  fixes y z w q :: rat
  assumes "\<bar>y - q\<bar> \<le> 1 / 9007199254740992" "\<bar>z - (1 - y)\<bar> \<le> 1 / 9007199254740992"
    "\<bar>w - z * 100\<bar> \<le> 1 / 140737488355328"
  shows "\<bar>w - (1 - q) * 100\<bar> < 1 / 17592186044416"
proof -
  have "w - (1 - q) * 100 = (w - z * 100) + 100 * (z - (1 - y)) - 100 * (y - q)"
    by (simp add: algebra_simps)
  then have "\<bar>w - (1 - q) * 100\<bar> \<le> \<bar>w - z * 100\<bar> + 100 * \<bar>z - (1 - y)\<bar> + 100 * \<bar>y - q\<bar>"
    using abs3[of "w - z * 100" "z - (1 - y)" "y - q"] by (simp only:)
  also have "\<dots> \<le> 1 / 140737488355328 + 100 * (1 / 9007199254740992) + 100 * (1 / 9007199254740992)"
    using assms by (intro add_mono mult_left_mono) simp_all
  also have "\<dots> < 1 / 17592186044416" by simp
  finally show ?thesis .
qed

lemma scaled_close:
  assumes "d \<le> L" "0 < L"
  shows "0 \<le> scaled d L"
    and "\<bar>scaled d L - (1 - of_nat d / of_nat L) * 100\<bar> < 2 powi (- 44)"
proof -
  let ?q = "of_nat d / of_nat L :: rat"
  let ?y = "fdiv (of_nat d) (of_nat L)"
  let ?z = "fsub 1 ?y"
  have q: "0 \<le> ?q" "?q \<le> 1" using assms by simp_all
  have y: "0 \<le> ?y" "?y \<le> 1" "\<bar>?y - ?q\<bar> \<le> 2 powi (- 53)"
    unfolding fdiv_def by (rule binary64_unit[OF q])+
  then have y1: "0 \<le> 1 - ?y" "1 - ?y \<le> 1" by simp_all
  have z: "0 \<le> ?z" "?z \<le> 1" "\<bar>?z - (1 - ?y)\<bar> \<le> 2 powi (- 53)"
    unfolding fsub_def by (rule binary64_unit[OF y1])+
  then have z1: "0 \<le> ?z * 100" "?z * 100 \<le> 100" by simp_all
  have w: "0 \<le> binary64 (?z * 100)" "\<bar>binary64 (?z * 100) - ?z * 100\<bar> \<le> 2 powi (- 47)"
    by (rule binary64_upto_100[OF z1])+
  from w(1) show "0 \<le> scaled d L" by (simp add: scaled_def fmul_def)
  have p: "(2::rat) powi (- 53) = 1 / 9007199254740992" "(2::rat) powi (- 47) = 1 / 140737488355328"
    "(2::rat) powi (- 44) = 1 / 17592186044416"
    by (simp_all add: power_int_minus field_simps)
  from y(3) z(3) w(2) show "\<bar>scaled d L - (1 - ?q) * 100\<bar> < 2 powi (- 44)"
    unfolding scaled_def fmul_def p by (rule error_chain)
qed

lemma half_fractions:
  fixes k t :: int and L :: nat
  assumes "0 < L"
  shows "of_int k + 1 / (2 * of_nat L) = (of_int (2 * k * int L + 1) :: rat) / (2 * of_nat L)"
    and "of_int t / of_nat L + 1/2 = (of_int (2 * t + int L) :: rat) / (2 * of_nat L)"
    and "of_int t / of_nat L + 1/2 + 1 / (2 * of_nat L)
         = (of_int (2 * t + int L + 1) :: rat) / (2 * of_nat L)"
    and "(of_int k :: rat) = of_int (2 * k * int L) / (2 * of_nat L)"
  using assms by (simp_all add: field_simps)

lemma gap_below:
  fixes k t :: int and L :: nat
  assumes "0 < L" "of_int k < (of_int t / of_nat L + 1/2 :: rat)"
  shows "of_int k + 1 / (2 * of_nat L) \<le> (of_int t / of_nat L + 1/2 :: rat)"
proof -
  have p: "(0::rat) < 2 * of_nat L" using assms(1) by simp
  from assms(2) have "(of_int (2 * k * int L) :: rat) / (2 * of_nat L)
                      < of_int (2 * t + int L) / (2 * of_nat L)"
    by (simp only: half_fractions(2,4)[OF assms(1), symmetric])
  then have "(of_int (2 * k * int L) :: rat) < of_int (2 * t + int L)"
    using p by (simp only: divide_less_cancel)
  then have "2 * k * int L < 2 * t + int L" by (simp only: of_int_less_iff)
  then have "2 * k * int L + 1 \<le> 2 * t + int L" by simp
  then have "(of_int (2 * k * int L + 1) :: rat) \<le> of_int (2 * t + int L)"
    by (simp only: of_int_le_iff)
  then have "(of_int (2 * k * int L + 1) :: rat) / (2 * of_nat L)
             \<le> of_int (2 * t + int L) / (2 * of_nat L)"
    using p by (intro divide_right_mono) simp_all
  then show ?thesis by (simp only: half_fractions(1,2)[OF assms(1)])
qed

lemma gap_above:
  fixes k t :: int and L :: nat
  assumes "0 < L" "(of_int t / of_nat L + 1/2 :: rat) < of_int k"
  shows "of_int t / of_nat L + 1/2 + 1 / (2 * of_nat L) \<le> (of_int k :: rat)"
proof -
  have p: "(0::rat) < 2 * of_nat L" using assms(1) by simp
  from assms(2) have "(of_int (2 * t + int L) :: rat) / (2 * of_nat L)
                      < of_int (2 * k * int L) / (2 * of_nat L)"
    by (simp only: half_fractions(2,4)[OF assms(1), symmetric])
  then have "(of_int (2 * t + int L) :: rat) < of_int (2 * k * int L)"
    using p by (simp only: divide_less_cancel)
  then have "2 * t + int L < 2 * k * int L" by (simp only: of_int_less_iff)
  then have "2 * t + int L + 1 \<le> 2 * k * int L" by simp
  then have "(of_int (2 * t + int L + 1) :: rat) \<le> of_int (2 * k * int L)"
    by (simp only: of_int_le_iff)
  then have "(of_int (2 * t + int L + 1) :: rat) / (2 * of_nat L)
             \<le> of_int (2 * k * int L) / (2 * of_nat L)"
    using p by (intro divide_right_mono) simp_all
  then show ?thesis
    by (simp only: half_fractions(3)[OF assms(1)] half_fractions(4)[OF assms(1), of k, symmetric])
qed

lemma small_gap:
  assumes "0 < L" "L < 2 ^ 32"
  shows "(2::rat) powi (- 44) < 1 / (2 * of_nat L)"
proof -
  have "(of_nat L :: rat) < of_nat (2 ^ 32)" using assms(2) by (simp only: of_nat_less_iff)
  then have "2 * (of_nat L :: rat) < 8589934592" by simp
  moreover have "(0::rat) < 2 * of_nat L" using assms(1) by simp
  ultimately have "1 / 8589934592 < 1 / (2 * of_nat L :: rat)"
    by (intro divide_strict_left_mono) simp_all
  moreover have "(2::rat) powi (- 44) < 1 / 8589934592"
    by (simp add: power_int_minus field_simps)
  ultimately show ?thesis by linarith
qed

lemma round_near:
  fixes w v :: rat and t :: int and L :: nat
  assumes v: "v = of_int t / of_nat L" and L: "0 < L" "L < 2 ^ 32"
    and close: "\<bar>w - v\<bar> < 2 powi (- 44)"
  shows "v - of_int \<lfloor>v\<rfloor> \<noteq> 1/2 \<Longrightarrow> \<lfloor>w + 1/2\<rfloor> = \<lfloor>v + 1/2\<rfloor>"
    and "v - of_int \<lfloor>v\<rfloor> = 1/2 \<Longrightarrow> \<lfloor>w + 1/2\<rfloor> = \<lfloor>v\<rfloor> \<or> \<lfloor>w + 1/2\<rfloor> = \<lfloor>v\<rfloor> + 1"
proof -
  note g = small_gap[OF L]
  {
    assume nt: "v - of_int \<lfloor>v\<rfloor> \<noteq> 1/2"
    define k where "k = \<lfloor>v + 1/2\<rfloor>"
    have k: "of_int k \<le> v + 1/2" "v + 1/2 < of_int (k + 1)" unfolding k_def by linarith+
    have "of_int k \<noteq> v + 1/2"
    proof
      assume e: "of_int k = v + 1/2"
      have "(of_int (k - 1) :: rat) = of_int k - 1" by simp
      with e have "of_int (k - 1) \<le> v" "v < of_int (k - 1) + 1" by linarith+
      then have "\<lfloor>v\<rfloor> = k - 1" by (rule floor_unique)
      with e nt show False by simp
    qed
    with k(1) have "of_int k < v + 1/2" by simp
    from gap_below[OF L(1) this[unfolded v]] have a: "of_int k + 1 / (2 * of_nat L) \<le> v + 1/2"
      by (simp only: v)
    from gap_above[OF L(1) k(2)[unfolded v]] have b: "v + 1/2 + 1 / (2 * of_nat L) \<le> of_int (k + 1)"
      by (simp only: v)
    have c: "- ((2::rat) powi (- 44)) < w - v" "w - v < 2 powi (- 44)"
      using close by (simp_all only: abs_less_iff) linarith+
    have "(of_int (k + 1) :: rat) = of_int k + 1" by simp
    with a b g c have "of_int k \<le> w + 1/2" "w + 1/2 < of_int k + 1" by linarith+
    then have "\<lfloor>w + 1/2\<rfloor> = \<lfloor>v + 1/2\<rfloor>" unfolding k_def by (rule floor_unique)
  }
  then show "v - of_int \<lfloor>v\<rfloor> \<noteq> 1/2 \<Longrightarrow> \<lfloor>w + 1/2\<rfloor> = \<lfloor>v + 1/2\<rfloor>" .
  {
    assume tie: "v - of_int \<lfloor>v\<rfloor> = 1/2"
    have "(2::rat) powi (- 44) < 1/2" by (simp add: power_int_minus field_simps)
    moreover have "- ((2::rat) powi (- 44)) < w - v" "w - v < 2 powi (- 44)"
      using close by (simp_all only: abs_less_iff) linarith+
    moreover have "(of_int (\<lfloor>v\<rfloor> + 2) :: rat) = of_int \<lfloor>v\<rfloor> + 2" by simp
    ultimately have "of_int \<lfloor>v\<rfloor> \<le> w + 1/2" "w + 1/2 < of_int (\<lfloor>v\<rfloor> + 2)"
      using tie by linarith+
    then have "\<lfloor>v\<rfloor> \<le> \<lfloor>w + 1/2\<rfloor>" "\<lfloor>w + 1/2\<rfloor> < \<lfloor>v\<rfloor> + 2"
      by (simp_all add: le_floor_iff floor_less_iff)
    then have "\<lfloor>w + 1/2\<rfloor> = \<lfloor>v\<rfloor> \<or> \<lfloor>w + 1/2\<rfloor> = \<lfloor>v\<rfloor> + 1" by linarith
  }
  then show "v - of_int \<lfloor>v\<rfloor> = 1/2 \<Longrightarrow> \<lfloor>w + 1/2\<rfloor> = \<lfloor>v\<rfloor> \<or> \<lfloor>w + 1/2\<rfloor> = \<lfloor>v\<rfloor> + 1" .
qed

lemma calculateWordSimilarity_scaled:
  "calculateWordSimilarity a b =
     (if max (length a) (length b) = 0 then 100
      else \<lfloor>max 0 (scaled (levenshtein_get a b) (max (length a) (length b))) + 1/2\<rfloor>)"
  by (simp add: calculateWordSimilarity_def scaled_def Math_round_def Math_max_def Let_def)

lemma similarity_range: "0 \<le> calculateWordSimilarity a b \<and> calculateWordSimilarity a b \<le> 100"
proof (cases "max (length a) (length b) = 0")
  case True
  then show ?thesis by (simp add: calculateWordSimilarity_scaled)
next
  case False
  let ?w = "max 0 (scaled (levenshtein_get a b) (max (length a) (length b)))"
  have "0 \<le> ?w" "?w \<le> 100" using scaled_le_100 by simp_all
  then have "of_int 0 \<le> ?w + 1/2" "?w + 1/2 < of_int 101" by simp_all
  then have "0 \<le> \<lfloor>?w + 1/2\<rfloor>" "\<lfloor>?w + 1/2\<rfloor> < 101"
    by (simp_all only: le_floor_iff floor_less_iff)
  with False show ?thesis by (simp add: calculateWordSimilarity_scaled)
qed

lemma exact_value:
  assumes "d \<le> L" "0 < L"
  shows "max 0 ((1 - of_nat d / of_nat L) * 100) = (of_int (100 * (int L - int d)) / of_nat L :: rat)"
proof -
  have "(of_nat d :: rat) / of_nat L \<le> 1" using assms by simp
  then have "max 0 ((1 - of_nat d / of_nat L) * 100) = ((1 - of_nat d / of_nat L) * 100 :: rat)"
    by simp
  also have "\<dots> = of_int (100 * (int L - int d)) / of_nat L"
    using assms(2) by (simp add: field_simps)
  finally show ?thesis .
qed

lemma similarity_refl: "calculateWordSimilarity s s = 100"
proof (cases "s = []")
  case True
  then show ?thesis by (simp add: calculateWordSimilarity_def)
next
  case False
  then show ?thesis
    by (simp add: calculateWordSimilarity_def levenshtein_refl fdiv_def fsub_def fmul_def
        binary64_0 binary64_1 binary64_100 Math_round_def Math_max_def floor_100_half)
qed

text \<open>
  Claim C5, as the code supports it.  The similarity is an integer between 0 and 100, and
  100 for two empty strings.  Otherwise, for strings of fewer than \<open>2\<^sup>3\<^sup>2\<close> code units, let
  \<open>v\<close> be the exact value of \<open>max (0, (1 - distance / maxLength) \<times> 100)\<close>.  When \<open>v\<close> is not
  exactly halfway between two integers the similarity is \<open>v\<close> rounded to the nearest
  integer; when it is halfway, the similarity is one of the two neighbouring integers,
  because the three double operations can end on either side of the half.
\<close>

theorem calculateWordSimilarity_rounding:
  "0 \<le> calculateWordSimilarity a b \<and> calculateWordSimilarity a b \<le> 100 \<and>
   (length a = 0 \<and> length b = 0 \<longrightarrow> calculateWordSimilarity a b = 100) \<and>
   (0 < max (length a) (length b) \<and> max (length a) (length b) < 2 ^ 32 \<longrightarrow>
      (let v = max 0 ((1 - of_nat (levenshtein_get a b) / of_nat (max (length a) (length b))) * 100) :: rat
       in (v - of_int \<lfloor>v\<rfloor> \<noteq> 1/2 \<longrightarrow> calculateWordSimilarity a b = \<lfloor>v + 1/2\<rfloor>) \<and>
          (v - of_int \<lfloor>v\<rfloor> = 1/2 \<longrightarrow>
             calculateWordSimilarity a b = \<lfloor>v\<rfloor> \<or> calculateWordSimilarity a b = \<lfloor>v\<rfloor> + 1)))"
proof (intro conjI impI)
  show "0 \<le> calculateWordSimilarity a b" "calculateWordSimilarity a b \<le> 100"
    using similarity_range by simp_all
next
  assume "length a = 0 \<and> length b = 0"
  then show "calculateWordSimilarity a b = 100" by (simp add: calculateWordSimilarity_scaled)
next
  let ?d = "levenshtein_get a b" and ?L = "max (length a) (length b)"
  assume L: "0 < ?L \<and> ?L < 2 ^ 32"
  define v :: rat where "v = max 0 ((1 - of_nat ?d / of_nat ?L) * 100)"
  have d: "?d \<le> ?L" by (rule levenshtein_le_max)
  have v: "v = of_int (100 * (int ?L - int ?d)) / of_nat ?L"
    unfolding v_def using d L by (intro exact_value) simp_all
  have w: "0 \<le> scaled ?d ?L" "\<bar>scaled ?d ?L - v\<bar> < 2 powi (- 44)"
  proof -
    show "0 \<le> scaled ?d ?L" using d L by (intro scaled_close) simp_all
    have "(of_nat ?d :: rat) / of_nat ?L \<le> 1" using d L by simp
    then have "v = (1 - of_nat ?d / of_nat ?L) * 100" unfolding v_def by simp
    moreover have "\<bar>scaled ?d ?L - (1 - of_nat ?d / of_nat ?L) * 100\<bar> < 2 powi (- 44)"
      using d L by (intro scaled_close) simp_all
    ultimately show "\<bar>scaled ?d ?L - v\<bar> < 2 powi (- 44)" by simp
  qed
  from L have "0 < ?L" by (rule conjunct1)
  then have ne: "?L \<noteq> 0" by (rule gr_implies_not0)
  have "calculateWordSimilarity a b = \<lfloor>max 0 (scaled ?d ?L) + 1/2\<rfloor>"
    by (simp only: calculateWordSimilarity_scaled ne if_False)
  also have "max 0 (scaled ?d ?L) = scaled ?d ?L" using w(1) by (rule max_absorb2)
  finally have s: "calculateWordSimilarity a b = \<lfloor>scaled ?d ?L + 1/2\<rfloor>" .
  from L have L1: "0 < ?L" and L2: "?L < 2 ^ 32" by simp_all
  note r = round_near[OF v L1 L2 w(2)]
  show "let v = max 0 ((1 - of_nat ?d / of_nat ?L) * 100) :: rat
       in (v - of_int \<lfloor>v\<rfloor> \<noteq> 1/2 \<longrightarrow> calculateWordSimilarity a b = \<lfloor>v + 1/2\<rfloor>) \<and>
          (v - of_int \<lfloor>v\<rfloor> = 1/2 \<longrightarrow>
             calculateWordSimilarity a b = \<lfloor>v\<rfloor> \<or> calculateWordSimilarity a b = \<lfloor>v\<rfloor> + 1)"
    unfolding Let_def v_def[symmetric] s using r by blast
qed

theorem calculateWordSimilarity_rounding_witness:
  "calculateWordSimilarity [0x61] [0x61, 0x62, 0x63, 0x64, 0x65, 0x66, 0x67, 0x68] = 13 \<and>
   calculateWordSimilarity [0x61, 0x62, 0x63] [0x61, 0x62, 0x78] = 67 \<and>
   calculateWordSimilarity [] [] = 100"
proof -
  have l: "levenshtein_get [0x61] [0x61, 0x62, 0x63, 0x64, 0x65, 0x66, 0x67, 0x68] = 7"
    "levenshtein_get [0x61, 0x62, 0x63] [0x61, 0x62, 0x78] = 1"
    by code_simp+
  have v: "(max 0 ((1 - 7 / 8) * 100) :: rat) = 25 / 2" "\<lfloor>25 / 2 :: rat\<rfloor> = 12"
    "(max 0 ((1 - 1 / 3) * 100) :: rat) = 200 / 3" "\<lfloor>200 / 3 :: rat\<rfloor> = 66"
    "\<lfloor>200 / 3 + 1 / 2 :: rat\<rfloor> = 67" "\<lfloor>403 / 6 :: rat\<rfloor> = 67"
    by code_simp+
  have n: "calculateWordSimilarity [0x61] [0x61, 0x62, 0x63, 0x64, 0x65, 0x66, 0x67, 0x68] \<noteq> 12"
    by code_simp
  from calculateWordSimilarity_rounding[of "[0x61]" "[0x61, 0x62, 0x63, 0x64, 0x65, 0x66, 0x67, 0x68]"]
  have a: "calculateWordSimilarity [0x61] [0x61, 0x62, 0x63, 0x64, 0x65, 0x66, 0x67, 0x68] = 13"
    using n by (simp add: l v Let_def)
  from calculateWordSimilarity_rounding[of "[0x61, 0x62, 0x63]" "[0x61, 0x62, 0x78]"]
  have b: "calculateWordSimilarity [0x61, 0x62, 0x63] [0x61, 0x62, 0x78] = 67"
    by (simp add: l v Let_def)
  from calculateWordSimilarity_rounding[of "[]" "[]"]
  have c: "calculateWordSimilarity [] [] = 100" by simp
  from a b c show ?thesis by simp
qed

text \<open>
  The similarity is not always the exact value rounded half up: for edit distance 17 over
  length 40 the exact value is 57.5, the double computed is 57.49999999999999, and the
  result is 57.
\<close>

theorem calculateWordSimilarity_rounding_counterexample:
  "calculateWordSimilarity (replicate 23 0x61 @ replicate 17 0x62) (replicate 23 0x61)
     \<noteq> \<lfloor>max 0 ((1 - of_nat (levenshtein_get (replicate 23 0x61 @ replicate 17 0x62)
                                      (replicate 23 0x61))
                       / of_nat (max (length (replicate 23 (0x61 :: 16 word) @ replicate 17 0x62))
                                     (length (replicate 23 (0x61 :: 16 word))))) * 100 :: rat)
        + 1/2\<rfloor> \<and>
   levenshtein_get (replicate 23 0x61 @ replicate 17 0x62) (replicate 23 0x61) = 17 \<and>
   max (length (replicate 23 (0x61 :: 16 word) @ replicate 17 0x62))
       (length (replicate 23 (0x61 :: 16 word))) = 40 \<and>
   calculateWordSimilarity (replicate 23 0x61 @ replicate 17 0x62) (replicate 23 0x61) = 57 \<and>
   \<lfloor>max 0 ((1 - 17 / 40) * 100 :: rat) + 1/2\<rfloor> = 58"
proof -
  have f: "Math_round (Math_max 0 (fmul (fsub 1 (fdiv 17 40)) 100)) = 57" by code_simp
  have e: "\<lfloor>max 0 ((1 - 17 / 40) * 100 :: rat) + 1/2\<rfloor> = 58" by code_simp
  show ?thesis
    by (simp add: calculateWordSimilarity_def levenshtein_append f e)
qed

section \<open>The selection loop\<close>

lemma set_insertBy: "set (insertBy cmp x ys) = insert x (set ys)"
  by (induction ys) auto

lemma set_Array_sort: "set (Array_sort cmp xs) = set xs"
  unfolding Array_sort_def by (induction xs) (simp_all add: set_insertBy)

lemma similarityMatrix_nth:
  "i < length rs \<Longrightarrow> j < length ss \<Longrightarrow>
   similarityMatrix rs ss ! i ! j = calculateWordSimilarity (rs ! i) (ss ! j)"
  by (simp add: similarityMatrix_def)

lemma allPairs_iff:
  "p \<in> set (allPairs rs ss) \<longleftrightarrow>
     refIdx p < length rs \<and> spokenIdx p < length ss \<and>
     pair.similarity p = calculateWordSimilarity (rs ! refIdx p) (ss ! spokenIdx p)"
  (is "?L \<longleftrightarrow> ?R")
proof
  assume ?L
  then obtain i j where "i < length rs" "j < length ss"
    and "p = \<lparr>refIdx = i, spokenIdx = j, similarity = similarityMatrix rs ss ! i ! j\<rparr>"
    by (auto simp: allPairs_def)
  then show ?R by (simp add: similarityMatrix_nth)
next
  assume r: ?R
  then have "p = \<lparr>refIdx = refIdx p, spokenIdx = spokenIdx p,
                  similarity = similarityMatrix rs ss ! refIdx p ! spokenIdx p\<rparr>"
    by (simp add: similarityMatrix_nth)
  with r show ?L unfolding allPairs_def
    by (auto intro!: bexI[of _ "refIdx p"] image_eqI[of _ _ "spokenIdx p"])
qed

lemma select_consistent:
  "consistent ps st \<Longrightarrow> p \<in> set ps \<Longrightarrow> consistent ps (select p st)"
  unfolding consistent_def select_def by auto

lemma fold_select_consistent:
  "consistent ps st \<Longrightarrow> set qs \<subseteq> set ps \<Longrightarrow> consistent ps (fold select qs st)"
  by (induction qs arbitrary: st) (simp_all add: select_consistent)

lemma greedy_consistent: "consistent (allPairs rs ss) (greedy rs ss)"
  unfolding greedy_def sortedPairs_def
  by (rule fold_select_consistent) (simp_all add: consistent_def set_Array_sort)

section \<open>The trace and the returned objects\<close>

lemma allPairs_empty: "rs = [] \<or> ss = [] \<Longrightarrow> allPairs rs ss = []"
  by (auto simp: allPairs_def)

lemma greedy_empty:
  "rs = [] \<or> ss = [] \<Longrightarrow> greedy rs ss = \<lparr>matches = [], matchedRef = {}, matchedSpoken = {}\<rparr>"
  by (simp add: greedy_def sortedPairs_def allPairs_empty Array_sort_def)

lemma alignTrace_eq:
  "alignTrace rs ss =
     map (refEntry (matches (greedy rs ss))) [0..<length rs]
     @ map Extra (filter (\<lambda>j. j \<notin> matchedSpoken (greedy rs ss)) [0..<length ss])"
proof (cases "rs = [] \<or> ss = []")
  case True
  then show ?thesis
    by (auto simp: alignTrace_def greedy_empty refEntry_def Let_def)
next
  case False
  then show ?thesis
    by (simp add: alignTrace_def Let_def refEntry_def)
qed

lemma map_by_index: "map f xs = map (\<lambda>i. f (xs ! i)) [0..<length xs]"
proof -
  have "map f xs = map f (map (\<lambda>i. xs ! i) [0..<length xs])" by (simp only: map_nth)
  then show ?thesis by (simp only: map_map o_def)
qed

lemma alignWords_trace: "alignWords rs ss = map (entryOf rs ss) (alignTrace rs ss)"
proof -
  consider "rs = []" "ss = []" | "rs = []" "ss \<noteq> []" | "rs \<noteq> []" "ss = []"
    | "rs \<noteq> []" "ss \<noteq> []" by blast
  then show ?thesis
  proof cases
    case 1
    then show ?thesis by (simp add: alignWords_def alignTrace_def)
  next
    case 2
    have "alignWords rs ss
          = map (\<lambda>w. \<lparr>refWord = ascii ''(extra)'', spokenWord = w, similarity = 0\<rparr>) ss"
      using 2 by (simp add: alignWords_def)
    also have "\<dots> = map (\<lambda>j. entryOf rs ss (Extra j)) [0..<length ss]"
      by (subst map_by_index) simp
    also have "\<dots> = map (entryOf rs ss) (alignTrace rs ss)"
      using 2 by (simp add: alignTrace_def o_def)
    finally show ?thesis .
  next
    case 3
    have "alignWords rs ss
          = map (\<lambda>w. \<lparr>refWord = w, spokenWord = ascii ''(missing)'', similarity = 0\<rparr>) rs"
      using 3 by (simp add: alignWords_def)
    also have "\<dots> = map (\<lambda>i. entryOf rs ss (Missing i)) [0..<length rs]"
      by (subst map_by_index) simp
    also have "\<dots> = map (entryOf rs ss) (alignTrace rs ss)"
      using 3 by (simp add: alignTrace_def o_def)
    finally show ?thesis .
  next
    case 4
    have e: "entryOf rs ss (case x of None \<Rightarrow> Missing i
                 | Some match \<Rightarrow> Matched i (spokenIdx match) (pair.similarity match))
          = (case x of None \<Rightarrow> \<lparr>refWord = rs ! i, spokenWord = ascii ''(missing)'', similarity = 0\<rparr>
             | Some match \<Rightarrow> \<lparr>refWord = rs ! i, spokenWord = ss ! spokenIdx match,
                                similarity = pair.similarity match\<rparr>)" for x i
      by (cases x) simp_all
    from 4 show ?thesis
      by (simp add: alignWords_def alignTrace_def Let_def o_def e)
  qed
qed

lemma refIndex_refEntry: "refIndex (refEntry ms i) = Some i"
  by (simp add: refEntry_def split: option.splits)

lemma spokenIndex_refEntry:
  "spokenIndex (refEntry ms i) = map_option spokenIdx (find (\<lambda>m. refIdx m = i) ms)"
  by (simp add: refEntry_def split: option.splits)

lemma find_refIdx:
  "distinct (map refIdx ms) \<Longrightarrow> p \<in> set ms \<Longrightarrow> find (\<lambda>q. refIdx q = refIdx p) ms = Some p"
  by (induction ms) (auto simp: rev_image_eqI)

lemma filter_eq_upt: "i < m \<Longrightarrow> filter (\<lambda>k. k = i) [0..<m] = [i]"
  by (induction m) (auto simp: less_Suc_eq)

lemma filter_eq_upt_conj:
  "length (filter (\<lambda>k. Q k \<and> k = j) [0..<n]) = (if j < n \<and> Q j then 1 else 0)"
  by (induction n) (auto simp: less_Suc_eq)

lemma count_ref_part:
  assumes "distinct (map refIdx ms)" "distinct (map spokenIdx ms)"
    and "\<forall>p\<in>set ms. refIdx p < m"
  shows "length (filter (\<lambda>e. spokenIndex e = Some j) (map (refEntry ms) [0..<m]))
         = (if j \<in> spokenIdx ` set ms then 1 else 0)"
proof (cases "j \<in> spokenIdx ` set ms")
  case True
  then obtain p where p: "p \<in> set ms" "spokenIdx p = j" by auto
  have inj: "inj_on spokenIdx (set ms)" using assms(2) by (simp add: distinct_map)
  have "filter (\<lambda>i. spokenIndex (refEntry ms i) = Some j) [0..<m]
        = filter (\<lambda>i. i = refIdx p) [0..<m]"
  proof (rule filter_cong[OF refl])
    fix i assume "i \<in> set [0..<m]"
    show "(spokenIndex (refEntry ms i) = Some j) = (i = refIdx p)"
    proof
      assume "spokenIndex (refEntry ms i) = Some j"
      then obtain q where q: "find (\<lambda>m. refIdx m = i) ms = Some q" "spokenIdx q = j"
        by (auto simp: spokenIndex_refEntry)
      then have "q \<in> set ms" "refIdx q = i" by (auto simp: find_Some_iff in_set_conv_nth)
      with inj p q show "i = refIdx p" by (auto dest: inj_onD)
    next
      assume "i = refIdx p"
      then show "spokenIndex (refEntry ms i) = Some j"
        using find_refIdx[OF assms(1) p(1)] p(2) by (simp add: spokenIndex_refEntry)
    qed
  qed
  moreover have "refIdx p < m" using assms(3) p(1) by blast
  ultimately show ?thesis using True by (simp add: filter_map o_def filter_eq_upt)
next
  case False
  have "filter (\<lambda>i. spokenIndex (refEntry ms i) = Some j) [0..<m] = []"
  proof (rule filter_False, rule ballI)
    fix i assume "i \<in> set [0..<m]"
    show "\<not> spokenIndex (refEntry ms i) = Some j"
    proof
      assume "spokenIndex (refEntry ms i) = Some j"
      then obtain q where q: "find (\<lambda>m. refIdx m = i) ms = Some q" "spokenIdx q = j"
        by (auto simp: spokenIndex_refEntry)
      then have "q \<in> set ms" by (auto simp: find_Some_iff in_set_conv_nth)
      with q False show False by auto
    qed
  qed
  with False show ?thesis by (simp add: filter_map o_def)
qed

lemma greedy_facts:
  "distinct (map refIdx (matches (greedy rs ss)))"
  "distinct (map spokenIdx (matches (greedy rs ss)))"
  "matchedRef (greedy rs ss) = refIdx ` set (matches (greedy rs ss))"
  "matchedSpoken (greedy rs ss) = spokenIdx ` set (matches (greedy rs ss))"
  "p \<in> set (matches (greedy rs ss)) \<Longrightarrow>
     refIdx p < length rs \<and> spokenIdx p < length ss \<and>
     pair.similarity p = calculateWordSimilarity (rs ! refIdx p) (ss ! spokenIdx p) \<and>
     MIN_SIMILARITY_THRESHOLD \<le> pair.similarity p"
  using greedy_consistent[of rs ss] unfolding consistent_def
  by (auto simp: allPairs_iff)

lemma count_ref: 
  assumes "i < length rs"
  shows "length (filter (\<lambda>e. refIndex e = Some i) (alignTrace rs ss)) = 1"
proof -
  have "map refIndex (alignTrace rs ss)
        = map Some [0..<length rs]
          @ map (\<lambda>j. None) (filter (\<lambda>j. j \<notin> matchedSpoken (greedy rs ss)) [0..<length ss])"
    by (simp add: alignTrace_eq refIndex_refEntry o_def)
  moreover have "length (filter (\<lambda>e. refIndex e = Some i) (alignTrace rs ss))
      = length (filter (\<lambda>x. x = Some i) (map refIndex (alignTrace rs ss)))"
    by (simp add: filter_map o_def)
  ultimately show ?thesis using assms
    by (simp add: filter_map o_def filter_eq_upt)
qed

lemma count_spoken:
  assumes "j < length ss"
  shows "length (filter (\<lambda>e. spokenIndex e = Some j) (alignTrace rs ss)) = 1"
proof -
  let ?st = "greedy rs ss"
  have a: "length (filter (\<lambda>e. spokenIndex e = Some j) (map (refEntry (matches ?st)) [0..<length rs]))
        = (if j \<in> matchedSpoken ?st then 1 else 0)"
    using count_ref_part[of "matches ?st" "length rs" j] greedy_facts(1-4)[of rs ss]
      greedy_facts(5)[of _ rs ss]
    by simp
  have b: "length (filter (\<lambda>e. spokenIndex e = Some j)
             (map Extra (filter (\<lambda>j. j \<notin> matchedSpoken ?st) [0..<length ss])))
        = (if j \<in> matchedSpoken ?st then 0 else 1)"
    using assms filter_eq_upt_conj[of "\<lambda>j. j \<notin> matchedSpoken ?st" j "length ss"]
    by (simp add: filter_map o_def)
  show ?thesis unfolding alignTrace_eq filter_append length_append a b by simp
qed

lemma trace_indices:
  assumes "e \<in> set (alignTrace rs ss)"
  shows "(\<forall>i. refIndex e = Some i \<longrightarrow> i < length rs) \<and>
         (\<forall>j. spokenIndex e = Some j \<longrightarrow> j < length ss)"
proof -
  from assms consider i where "i < length rs" "e = refEntry (matches (greedy rs ss)) i"
    | j where "j < length ss" "e = Extra j"
    by (auto simp: alignTrace_eq)
  then show ?thesis
  proof cases
    case 1
    show ?thesis
    proof (cases "find (\<lambda>m. refIdx m = i) (matches (greedy rs ss))")
      case None
      with 1 show ?thesis by (simp add: refEntry_def)
    next
      case (Some q)
      then have "q \<in> set (matches (greedy rs ss))" by (auto simp: find_Some_iff in_set_conv_nth)
      from greedy_facts(5)[OF this] 1 Some show ?thesis by (simp add: refEntry_def)
    qed
  next
    case 2
    then show ?thesis by simp
  qed
qed

lemma find_SomeD: "find P xs = Some x \<Longrightarrow> x \<in> set xs \<and> P x"
  by (auto simp: find_Some_iff in_set_conv_nth)

lemma refEntry_cases:
  "(\<exists>q. find (\<lambda>m. refIdx m = i) ms = Some q \<and>
        refEntry ms i = Matched i (spokenIdx q) (pair.similarity q)) \<or>
   (find (\<lambda>m. refIdx m = i) ms = None \<and> refEntry ms i = Missing i)"
  by (cases "find (\<lambda>m. refIdx m = i) ms") (simp_all add: refEntry_def)

lemma Matched_in_trace_iff:
  "Matched i j s \<in> set (alignTrace rs ss) \<longleftrightarrow>
   \<lparr>refIdx = i, spokenIdx = j, similarity = s\<rparr> \<in> set (matches (greedy rs ss))"
  (is "?L \<longleftrightarrow> ?R")
proof
  assume ?L
  then obtain k where k: "k < length rs" "refEntry (matches (greedy rs ss)) k = Matched i j s"
    by (auto simp: alignTrace_eq)
  from refEntry_cases[of k "matches (greedy rs ss)"] k(2)
  obtain q where q: "find (\<lambda>m. refIdx m = k) (matches (greedy rs ss)) = Some q"
    "k = i" "spokenIdx q = j" "pair.similarity q = s"
    by auto
  from find_SomeD[OF q(1)] q(2-4) have "q \<in> set (matches (greedy rs ss))"
    and "q = \<lparr>refIdx = i, spokenIdx = j, similarity = s\<rparr>" by auto
  then show ?R by simp
next
  assume r: ?R
  let ?p = "\<lparr>refIdx = i, spokenIdx = j, similarity = s\<rparr>"
  from greedy_facts(5)[OF r] have i: "i < length rs" by simp
  from find_refIdx[OF greedy_facts(1) r]
  have "refEntry (matches (greedy rs ss)) i = Matched i j s" by (simp add: refEntry_def)
  with i show ?L by (force simp: alignTrace_eq)
qed

lemma Missing_in_trace_iff:
  "Missing i \<in> set (alignTrace rs ss) \<longleftrightarrow> i < length rs \<and> i \<notin> matchedRef (greedy rs ss)"
  (is "?L \<longleftrightarrow> ?R")
proof
  assume ?L
  then obtain k where k: "k < length rs" "refEntry (matches (greedy rs ss)) k = Missing i"
    by (auto simp: alignTrace_eq)
  from refEntry_cases[of k "matches (greedy rs ss)"] k(2)
  have "find (\<lambda>m. refIdx m = k) (matches (greedy rs ss)) = None" "k = i" by auto
  with k(1) show ?R by (auto simp: find_None_iff greedy_facts(3))
next
  assume r: ?R
  then have "find (\<lambda>m. refIdx m = i) (matches (greedy rs ss)) = None"
    by (auto simp: find_None_iff greedy_facts(3))
  then have "refEntry (matches (greedy rs ss)) i = Missing i" by (simp add: refEntry_def)
  with r show ?L by (force simp: alignTrace_eq)
qed

lemma Extra_in_trace_iff:
  "Extra j \<in> set (alignTrace rs ss) \<longleftrightarrow> j < length ss \<and> j \<notin> matchedSpoken (greedy rs ss)"
proof -
  have "Extra j \<noteq> refEntry ms k" for ms k
    using refEntry_cases[of k ms] by auto
  then show ?thesis by (auto simp: alignTrace_eq)
qed

lemma sorted_filter_upt: "sorted_wrt (<) (filter P [0..<n])"
  by (rule sorted_wrt_filter) simp

lemma refWord_refEntry: "refWord (entryOf rs ss (refEntry ms i)) = rs ! i"
  using refEntry_cases[of i ms] by auto

section \<open>Partition, threshold, order and edge cases of the alignment\<close>

text \<open>
  Claim C1.  For all token sequences, every reference index occurs in exactly one entry of
  the alignment (a Matched or a Missing one) and every spoken index occurs in exactly one
  entry (a Matched or an Extra one); no entry carries an index outside the two
  sequences.  The entries are those of the trace, which \<open>entryOf\<close> maps to the returned
  objects one by one.
\<close>

theorem alignWords_partition:
  "alignWords rs ss = map (entryOf rs ss) (alignTrace rs ss) \<and>
   (\<forall>i<length rs. length (filter (\<lambda>e. refIndex e = Some i) (alignTrace rs ss)) = 1) \<and>
   (\<forall>j<length ss. length (filter (\<lambda>e. spokenIndex e = Some j) (alignTrace rs ss)) = 1) \<and>
   (\<forall>e\<in>set (alignTrace rs ss).
      (\<forall>i. refIndex e = Some i \<longrightarrow> i < length rs) \<and>
      (\<forall>j. spokenIndex e = Some j \<longrightarrow> j < length ss))"
  using alignWords_trace count_ref count_spoken trace_indices by blast

theorem alignWords_partition_witness:
  "alignTrace [[0x61]] [[0x61], [0x62]] = [Matched 0 0 100, Extra 1] \<and>
   (0::nat) < length [[0x61 :: 16 word]] \<and>
   length (filter (\<lambda>e. refIndex e = Some 0) (alignTrace [[0x61]] [[0x61], [0x62]])) = 1 \<and>
   (1::nat) < length [[0x61 :: 16 word], [0x62]] \<and>
   length (filter (\<lambda>e. spokenIndex e = Some 1) (alignTrace [[0x61]] [[0x61], [0x62]])) = 1"
proof -
  have t: "alignTrace [[0x61]] [[0x61], [0x62]] = [Matched 0 0 100, Extra 1]"
    by code_simp
  from alignWords_partition[of "[[0x61]]" "[[0x61], [0x62]]"] show ?thesis
    by (simp add: t)
qed

text \<open>
  Claim C2.  No Matched entry has a similarity below 30, and the similarity of a Matched
  entry is that of the two tokens it pairs.  A candidate pair \<open>(i, j)\<close> below the
  threshold is never a Matched entry; when neither of its indices is matched to another
  partner either, reference index \<open>i\<close> is a Missing entry and spoken index \<open>j\<close> an Extra
  entry.
\<close>

theorem alignWords_threshold:
  "alignWords rs ss = map (entryOf rs ss) (alignTrace rs ss) \<and>
   (\<forall>i j s. Matched i j s \<in> set (alignTrace rs ss) \<longrightarrow>
      i < length rs \<and> j < length ss \<and>
      s = calculateWordSimilarity (rs ! i) (ss ! j) \<and> 30 \<le> s) \<and>
   (\<forall>i<length rs. \<forall>j<length ss. calculateWordSimilarity (rs ! i) (ss ! j) < 30 \<longrightarrow>
      (\<forall>s. Matched i j s \<notin> set (alignTrace rs ss)) \<and>
      ((\<forall>j' s. Matched i j' s \<notin> set (alignTrace rs ss)) \<and>
       (\<forall>i' s. Matched i' j s \<notin> set (alignTrace rs ss))
       \<longrightarrow> Missing i \<in> set (alignTrace rs ss) \<and> Extra j \<in> set (alignTrace rs ss)))"
proof (intro conjI allI impI)
  show "alignWords rs ss = map (entryOf rs ss) (alignTrace rs ss)"
    by (rule alignWords_trace)
next
  fix i j s assume "Matched i j s \<in> set (alignTrace rs ss)"
  then have "\<lparr>refIdx = i, spokenIdx = j, similarity = s\<rparr> \<in> set (matches (greedy rs ss))"
    by (simp add: Matched_in_trace_iff)
  from greedy_facts(5)[OF this]
  show "i < length rs" "j < length ss" "s = calculateWordSimilarity (rs ! i) (ss ! j)" "30 \<le> s"
    by (simp_all add: MIN_SIMILARITY_THRESHOLD_def)
next
  fix i j s
  assume low: "calculateWordSimilarity (rs ! i) (ss ! j) < 30"
  show "Matched i j s \<notin> set (alignTrace rs ss)"
  proof
    assume "Matched i j s \<in> set (alignTrace rs ss)"
    then have "\<lparr>refIdx = i, spokenIdx = j, similarity = s\<rparr> \<in> set (matches (greedy rs ss))"
      by (simp add: Matched_in_trace_iff)
    from greedy_facts(5)[OF this] low show False
      by (simp add: MIN_SIMILARITY_THRESHOLD_def)
  qed
next
  fix i j
  assume i: "i < length rs" and j: "j < length ss"
    and free: "(\<forall>j' s. Matched i j' s \<notin> set (alignTrace rs ss)) \<and>
               (\<forall>i' s. Matched i' j s \<notin> set (alignTrace rs ss))"
  have "i \<notin> matchedRef (greedy rs ss)"
  proof
    assume "i \<in> matchedRef (greedy rs ss)"
    then obtain p where "p \<in> set (matches (greedy rs ss))" "refIdx p = i"
      by (auto simp: greedy_facts(3))
    moreover have "\<lparr>refIdx = refIdx p, spokenIdx = spokenIdx p, similarity = pair.similarity p\<rparr> = p"
      by simp
    ultimately have "\<lparr>refIdx = i, spokenIdx = spokenIdx p, similarity = pair.similarity p\<rparr>
               \<in> set (matches (greedy rs ss))" by metis
    with free show False by (simp add: Matched_in_trace_iff)
  qed
  with i show "Missing i \<in> set (alignTrace rs ss)" by (simp add: Missing_in_trace_iff)
  have "j \<notin> matchedSpoken (greedy rs ss)"
  proof
    assume "j \<in> matchedSpoken (greedy rs ss)"
    then obtain p where "p \<in> set (matches (greedy rs ss))" "spokenIdx p = j"
      by (auto simp: greedy_facts(4))
    moreover have "\<lparr>refIdx = refIdx p, spokenIdx = spokenIdx p, similarity = pair.similarity p\<rparr> = p"
      by simp
    ultimately have "\<lparr>refIdx = refIdx p, spokenIdx = j, similarity = pair.similarity p\<rparr>
               \<in> set (matches (greedy rs ss))" by metis
    with free show False by (simp add: Matched_in_trace_iff)
  qed
  with j show "Extra j \<in> set (alignTrace rs ss)" by (simp add: Extra_in_trace_iff)
qed

theorem alignWords_threshold_witness:
  "calculateWordSimilarity [0x61] [0x61, 0x62, 0x63, 0x64, 0x65, 0x66, 0x67, 0x68] = 13 \<and>
   alignTrace [[0x61]] [[0x61, 0x62, 0x63, 0x64, 0x65, 0x66, 0x67, 0x68]] = [Missing 0, Extra 0] \<and>
   Missing 0 \<in> set (alignTrace [[0x61]] [[0x61, 0x62, 0x63, 0x64, 0x65, 0x66, 0x67, 0x68]]) \<and>
   Extra 0 \<in> set (alignTrace [[0x61]] [[0x61, 0x62, 0x63, 0x64, 0x65, 0x66, 0x67, 0x68]])"
proof -
  have s: "calculateWordSimilarity [0x61] [0x61, 0x62, 0x63, 0x64, 0x65, 0x66, 0x67, 0x68] = 13"
    by code_simp
  have t: "alignTrace [[0x61]] [[0x61, 0x62, 0x63, 0x64, 0x65, 0x66, 0x67, 0x68]]
           = [Missing 0, Extra 0]"
    by code_simp
  from alignWords_threshold[of "[[0x61]]" "[[0x61, 0x62, 0x63, 0x64, 0x65, 0x66, 0x67, 0x68]]"]
  show ?thesis by (simp add: s t)
qed

text \<open>
  Claim C3.  The alignment lists first one entry per reference index, in increasing order
  of the reference index (an entry with a reference index is Matched or Missing), and
  then the Extra entries, in increasing order of their spoken index.  On the returned
  objects: the first objects carry the reference words in their order, and the others are
  the Extra objects of an increasing sequence of spoken indices.
\<close>

theorem alignWords_order:
  "alignWords rs ss = map (entryOf rs ss) (alignTrace rs ss) \<and>
   map refIndex (take (length rs) (alignTrace rs ss)) = map Some [0..<length rs] \<and>
   map refWord (take (length rs) (alignWords rs ss)) = rs \<and>
   (\<exists>js. sorted_wrt (<) js \<and> set js \<subseteq> {0..<length ss} \<and>
         drop (length rs) (alignTrace rs ss) = map Extra js \<and>
         drop (length rs) (alignWords rs ss)
           = map (\<lambda>j. \<lparr>refWord = ascii ''(extra)'', spokenWord = ss ! j, similarity = 0\<rparr>) js)"
proof (intro conjI)
  let ?js = "filter (\<lambda>j. j \<notin> matchedSpoken (greedy rs ss)) [0..<length ss]"
  show t: "alignWords rs ss = map (entryOf rs ss) (alignTrace rs ss)"
    by (rule alignWords_trace)
  show "map refIndex (take (length rs) (alignTrace rs ss)) = map Some [0..<length rs]"
    by (simp add: alignTrace_eq refIndex_refEntry)
  have "map refWord (take (length rs) (alignWords rs ss)) = map (\<lambda>i. rs ! i) [0..<length rs]"
    by (simp add: t alignTrace_eq take_map refWord_refEntry)
  then show "map refWord (take (length rs) (alignWords rs ss)) = rs"
    by (simp only: map_nth)
  have d: "drop (length rs) (alignTrace rs ss) = map Extra ?js"
    by (simp add: alignTrace_eq)
  then have "drop (length rs) (alignWords rs ss)
      = map (\<lambda>j. \<lparr>refWord = ascii ''(extra)'', spokenWord = ss ! j, similarity = 0\<rparr>) ?js"
    by (simp add: t drop_map o_def)
  with d show "\<exists>js. sorted_wrt (<) js \<and> set js \<subseteq> {0..<length ss} \<and>
         drop (length rs) (alignTrace rs ss) = map Extra js \<and>
         drop (length rs) (alignWords rs ss)
           = map (\<lambda>j. \<lparr>refWord = ascii ''(extra)'', spokenWord = ss ! j, similarity = 0\<rparr>) js"
    by (intro exI[of _ ?js] conjI sorted_filter_upt) auto
qed

theorem alignWords_order_witness:
  "alignTrace [[0x61], [0x62]] [[0x62], [0x78], [0x61], [0x79]]
     = [Matched 0 2 100, Matched 1 0 100, Extra 1, Extra 3] \<and>
   map refIndex (take 2 (alignTrace [[0x61], [0x62]] [[0x62], [0x78], [0x61], [0x79]]))
     = [Some 0, Some 1] \<and>
   drop 2 (alignTrace [[0x61], [0x62]] [[0x62], [0x78], [0x61], [0x79]]) = map Extra [1, 3] \<and>
   sorted_wrt (<) [1, 3 :: nat]"
proof -
  have t: "alignTrace [[0x61], [0x62]] [[0x62], [0x78], [0x61], [0x79]]
           = [Matched 0 2 100, Matched 1 0 100, Extra 1, Extra 3]"
    by code_simp
  from alignWords_order[of "[[0x61], [0x62]]" "[[0x62], [0x78], [0x61], [0x79]]"]
  show ?thesis by (simp add: t)
qed

text \<open>
  Claim C7.  With both sequences empty the result is empty; with an empty reference
  sequence it is one Extra object (similarity 0) per spoken token, in spoken order; with
  an empty spoken sequence it is one Missing object (similarity 0) per reference token, in
  reference order.
\<close>

theorem alignWords_edge_cases:
  "alignWords [] [] = [] \<and>
   alignWords [] ss = map (\<lambda>w. \<lparr>refWord = ascii ''(extra)'', spokenWord = w, similarity = 0\<rparr>) ss \<and>
   alignWords rs [] = map (\<lambda>w. \<lparr>refWord = w, spokenWord = ascii ''(missing)'', similarity = 0\<rparr>) rs \<and>
   alignTrace [] ss = map Extra [0..<length ss] \<and>
   alignTrace rs [] = map Missing [0..<length rs]"
  by (simp add: alignWords_def alignTrace_def Let_def)

theorem alignWords_edge_cases_witness:
  "alignWords [] [[0x61], [0x62]]
     = [\<lparr>refWord = ascii ''(extra)'', spokenWord = [0x61], similarity = 0\<rparr>,
        \<lparr>refWord = ascii ''(extra)'', spokenWord = [0x62], similarity = 0\<rparr>] \<and>
   alignWords [[0x61], [0x62]] []
     = [\<lparr>refWord = [0x61], spokenWord = ascii ''(missing)'', similarity = 0\<rparr>,
        \<lparr>refWord = [0x62], spokenWord = ascii ''(missing)'', similarity = 0\<rparr>]"
  using alignWords_edge_cases[of "[[0x61], [0x62]]" "[[0x61], [0x62]]"] by simp

section \<open>The candidate list\<close>

lemma insertBy_insort_key:
  "insertBy (\<lambda>a b. pair.similarity b - pair.similarity a) x ys
   = insort_key (\<lambda>p. - pair.similarity p) x ys"
  by (induction ys) simp_all

lemma Array_sort_sort_key:
  "Array_sort (\<lambda>a b. pair.similarity b - pair.similarity a) xs
   = sort_key (\<lambda>p. - pair.similarity p) xs"
  unfolding Array_sort_def sort_key_def
  by (induction xs) (simp_all add: insertBy_insort_key)

lemma sorted_desc:
  "sorted_wrt (\<lambda>a b. pair.similarity b \<le> pair.similarity a)
     (Array_sort (\<lambda>a b. pair.similarity b - pair.similarity a) xs)"
proof -
  have "sorted (map (\<lambda>p. - pair.similarity p) (sort_key (\<lambda>p. - pair.similarity p) xs))"
    by (rule sorted_sort_key)
  then show ?thesis
    by (simp add: Array_sort_sort_key sorted_map)
qed

lemma sort_stable:
  "filter (\<lambda>p. pair.similarity p = s) (Array_sort (\<lambda>a b. pair.similarity b - pair.similarity a) xs)
   = filter (\<lambda>p. pair.similarity p = s) xs"
proof -
  have "filter (\<lambda>p. - pair.similarity p = - s) (sort_key (\<lambda>p. - pair.similarity p) xs)
        = filter (\<lambda>p. - pair.similarity p = - s) xs"
    by (rule sort_key_stable)
  then show ?thesis by (simp add: Array_sort_sort_key)
qed

lemma stable_mset:
  fixes xs ys :: "pair list"
  assumes "\<forall>s. filter (\<lambda>p. pair.similarity p = s) ys = filter (\<lambda>p. pair.similarity p = s) xs"
  shows "mset ys = mset xs"
proof (rule multiset_eqI)
  fix p :: pair
  have "count (mset ys) p = count (mset (filter (\<lambda>q. pair.similarity q = pair.similarity p) ys)) p"
    by simp
  also have "\<dots> = count (mset (filter (\<lambda>q. pair.similarity q = pair.similarity p) xs)) p"
    using assms by simp
  also have "\<dots> = count (mset xs) p" by simp
  finally show "count (mset ys) p = count (mset xs) p" .
qed

lemma sort_unique:
  fixes xs ys :: "pair list"
  assumes "sorted_wrt (\<lambda>a b. pair.similarity b \<le> pair.similarity a) ys"
    and st: "\<forall>s. filter (\<lambda>p. pair.similarity p = s) ys = filter (\<lambda>p. pair.similarity p = s) xs"
  shows "ys = Array_sort (\<lambda>a b. pair.similarity b - pair.similarity a) xs"
proof -
  have "sort_key (\<lambda>p. - pair.similarity p) xs = ys"
  proof (rule properties_for_sort_key)
    show "mset ys = mset xs" by (rule stable_mset[OF st])
    show "sorted (map (\<lambda>p. - pair.similarity p) ys)"
      using assms(1) by (simp add: sorted_map)
    fix k assume "k \<in> set ys"
    from st[rule_format, of "pair.similarity k"]
    show "filter (\<lambda>x. - pair.similarity k = - pair.similarity x) ys
          = filter (\<lambda>x. - pair.similarity k = - pair.similarity x) xs"
      by (simp add: eq_commute)
  qed
  then show ?thesis by (simp add: Array_sort_sort_key)
qed

lemma allPairs_row_major:
  "allPairs rs ss =
     concat (map (\<lambda>i. map (\<lambda>j. \<lparr>refIdx = i, spokenIdx = j,
                                 similarity = calculateWordSimilarity (rs ! i) (ss ! j)\<rparr>)
                         [0..<length ss])
                 [0..<length rs])"
  unfolding allPairs_def
  by (rule arg_cong[where f = concat]) (simp add: similarityMatrix_nth)

text \<open>
  Claim C9.  The candidates are enumerated row by row; after sorting they are in
  descending order of similarity, and the candidates of any one similarity are in the
  order of the enumeration.  These two properties determine the sorted list: every list
  that has them is the one the model computes, so the alignment is a function of the two
  token sequences alone.
\<close>

theorem sortedPairs_stable:
  "allPairs rs ss =
     concat (map (\<lambda>i. map (\<lambda>j. \<lparr>refIdx = i, spokenIdx = j,
                                 similarity = calculateWordSimilarity (rs ! i) (ss ! j)\<rparr>)
                         [0..<length ss])
                 [0..<length rs]) \<and>
   sorted_wrt (\<lambda>a b. pair.similarity b \<le> pair.similarity a) (sortedPairs rs ss) \<and>
   (\<forall>s. filter (\<lambda>p. pair.similarity p = s) (sortedPairs rs ss)
        = filter (\<lambda>p. pair.similarity p = s) (allPairs rs ss)) \<and>
   (\<forall>ys. sorted_wrt (\<lambda>a b. pair.similarity b \<le> pair.similarity a) ys \<and>
         (\<forall>s. filter (\<lambda>p. pair.similarity p = s) ys
              = filter (\<lambda>p. pair.similarity p = s) (allPairs rs ss))
         \<longrightarrow> ys = sortedPairs rs ss)"
  unfolding sortedPairs_def
  using allPairs_row_major sorted_desc sort_stable sort_unique by blast

theorem sortedPairs_stable_witness:
  "sortedPairs [[0x61], [0x62]] [[0x61], [0x62]]
     = [\<lparr>refIdx = 0, spokenIdx = 0, similarity = 100\<rparr>,
        \<lparr>refIdx = 1, spokenIdx = 1, similarity = 100\<rparr>,
        \<lparr>refIdx = 0, spokenIdx = 1, similarity = 0\<rparr>,
        \<lparr>refIdx = 1, spokenIdx = 0, similarity = 0\<rparr>] \<and>
   filter (\<lambda>p. pair.similarity p = 0) (sortedPairs [[0x61], [0x62]] [[0x61], [0x62]])
     = filter (\<lambda>p. pair.similarity p = 0) (allPairs [[0x61], [0x62]] [[0x61], [0x62]])"
proof -
  have t: "sortedPairs [[0x61], [0x62]] [[0x61], [0x62]]
     = [\<lparr>refIdx = 0, spokenIdx = 0, similarity = 100\<rparr>,
        \<lparr>refIdx = 1, spokenIdx = 1, similarity = 100\<rparr>,
        \<lparr>refIdx = 0, spokenIdx = 1, similarity = 0\<rparr>,
        \<lparr>refIdx = 1, spokenIdx = 0, similarity = 0\<rparr>]"
    by code_simp
  note st = sortedPairs_stable[of "[[0x61], [0x62]]" "[[0x61], [0x62]]",
      THEN conjunct2, THEN conjunct2, THEN conjunct1, rule_format, of 0]
  show ?thesis by (rule conjI, rule t, rule st)
qed

section \<open>The documented example\<close>

text \<open>
  The tokens are U+092E U+0948 U+0902, U+0906 U+091C and U+092C U+093E U+091C U+093C U+093E
  U+0930 on the reference side, and U+0906 U+091C, U+092E U+0948 U+0902 and U+092C U+093E
  U+091C U+093E U+0930 U+0940 on the spoken side.
\<close>

lemma bazaar_distance:
  "levenshtein_get [0x92C, 0x93E, 0x91C, 0x93C, 0x93E, 0x930]
                   [0x92C, 0x93E, 0x91C, 0x93E, 0x930, 0x940] = 2"
  by code_simp

lemma scenario_trace:
  "alignTrace [[0x92E, 0x948, 0x902], [0x906, 0x91C], [0x92C, 0x93E, 0x91C, 0x93C, 0x93E, 0x930]]
              [[0x906, 0x91C], [0x92E, 0x948, 0x902], [0x92C, 0x93E, 0x91C, 0x93E, 0x930, 0x940]]
   = [Matched 0 1 100, Matched 1 0 100, Matched 2 2 67]"
  by code_simp

lemma overall_267:
  "overall [\<lparr>word = a, transcribedWord = b, score = 100\<rparr>,
            \<lparr>word = c, transcribedWord = d, score = 100\<rparr>,
            \<lparr>word = e, transcribedWord = f, score = 67\<rparr>] = 89"
proof -
  have "Math_round (fdiv 267 3) = 89" by code_simp
  then show ?thesis by (simp add: overall_def)
qed

text \<open>
  Claim C4, as the code computes it.  The example yields three Matched entries in reference
  order, with similarities 100, 100 and 67: the third pair has edit distance 2 and both
  tokens have six code units, so the similarity is \<open>round ((1 - 2/6) \<times> 100) = 67\<close>.
  The aggregate score is \<open>round (267 / 3) = 89\<close>.
\<close>

theorem scenario_1:
  "alignTrace [[0x92E, 0x948, 0x902], [0x906, 0x91C], [0x92C, 0x93E, 0x91C, 0x93C, 0x93E, 0x930]]
              [[0x906, 0x91C], [0x92E, 0x948, 0x902], [0x92C, 0x93E, 0x91C, 0x93E, 0x930, 0x940]]
     = [Matched 0 1 100, Matched 1 0 100, Matched 2 2 67] \<and>
   alignWords [[0x92E, 0x948, 0x902], [0x906, 0x91C], [0x92C, 0x93E, 0x91C, 0x93C, 0x93E, 0x930]]
              [[0x906, 0x91C], [0x92E, 0x948, 0x902], [0x92C, 0x93E, 0x91C, 0x93E, 0x930, 0x940]]
     = [\<lparr>refWord = [0x92E, 0x948, 0x902], spokenWord = [0x92E, 0x948, 0x902], similarity = 100\<rparr>,
        \<lparr>refWord = [0x906, 0x91C], spokenWord = [0x906, 0x91C], similarity = 100\<rparr>,
        \<lparr>refWord = [0x92C, 0x93E, 0x91C, 0x93C, 0x93E, 0x930],
          spokenWord = [0x92C, 0x93E, 0x91C, 0x93E, 0x930, 0x940], similarity = 67\<rparr>] \<and>
   levenshtein_get [0x92C, 0x93E, 0x91C, 0x93C, 0x93E, 0x930]
                   [0x92C, 0x93E, 0x91C, 0x93E, 0x930, 0x940] = 2 \<and>
   max (length [0x92C, 0x93E, 0x91C, 0x93C, 0x93E, 0x930 :: 16 word])
       (length [0x92C, 0x93E, 0x91C, 0x93E, 0x930, 0x940 :: 16 word]) = 6 \<and>
   overall (map (\<lambda>a. \<lparr>word = refWord a, transcribedWord = spokenWord a,
                        score = aligned.similarity a\<rparr>) (alignWords
     [[0x92E, 0x948, 0x902], [0x906, 0x91C], [0x92C, 0x93E, 0x91C, 0x93C, 0x93E, 0x930]]
     [[0x906, 0x91C], [0x92E, 0x948, 0x902], [0x92C, 0x93E, 0x91C, 0x93E, 0x930, 0x940]])) = 89"
  by (simp add: alignWords_trace scenario_trace bazaar_distance overall_267)

text \<open>The similarities are not 100, 100, 71, and the aggregate score is not 90.\<close>

theorem scenario_1_counterexample:
  "map aligned.similarity (alignWords
      [[0x92E, 0x948, 0x902], [0x906, 0x91C], [0x92C, 0x93E, 0x91C, 0x93C, 0x93E, 0x930]]
      [[0x906, 0x91C], [0x92E, 0x948, 0x902], [0x92C, 0x93E, 0x91C, 0x93E, 0x930, 0x940]])
     \<noteq> [100, 100, 71] \<and>
   overall (map (\<lambda>a. \<lparr>word = refWord a, transcribedWord = spokenWord a,
                        score = aligned.similarity a\<rparr>) (alignWords
      [[0x92E, 0x948, 0x902], [0x906, 0x91C], [0x92C, 0x93E, 0x91C, 0x93C, 0x93E, 0x930]]
      [[0x906, 0x91C], [0x92E, 0x948, 0x902], [0x92C, 0x93E, 0x91C, 0x93E, 0x930, 0x940]]))
     \<noteq> 90"
  by (simp add: alignWords_trace scenario_trace overall_267)

section \<open>The aggregate score\<close>

lemma fold_score: "fold (\<lambda>ws sum. sum + score ws) ws acc = acc + sum_list (map score ws)"
  by (induction ws arbitrary: acc) simp_all

lemma Math_round_mean:
  assumes "0 \<le> t" "t \<le> 100 * int n" "0 < n" "n < 2 ^ 32"
  shows "Math_round (fdiv (of_int t) (of_nat n)) = \<lfloor>of_int t / of_nat n + 1/2 :: rat\<rfloor>"
proof -
  define v :: rat where "v = of_int t / of_nat n"
  have "(of_int t :: rat) \<le> of_int (100 * int n)" using assms(2) by (simp only: of_int_le_iff)
  then have v100: "v \<le> 100" unfolding v_def using assms(3) by (simp add: field_simps)
  have v0: "0 \<le> v" unfolding v_def using assms(1) by simp
  have close: "\<bar>binary64 v - v\<bar> < 2 powi (- 44)"
  proof -
    have "\<bar>binary64 v - v\<bar> \<le> 2 powi (- 47)" by (rule binary64_upto_100[OF v0 v100])
    moreover have "(2::rat) powi (- 47) < 2 powi (- 44)" by (simp add: power_int_minus field_simps)
    ultimately show ?thesis by linarith
  qed
  have "\<lfloor>binary64 v + 1/2\<rfloor> = \<lfloor>v + 1/2\<rfloor>"
  proof (cases "v - of_int \<lfloor>v\<rfloor> = 1/2")
    case False
    then show ?thesis by (rule round_near(1)[OF v_def assms(3,4) close])
  next
    case True
    then have d: "v = of_int (2 * \<lfloor>v\<rfloor> + 1) / 2 ^ 1" by (simp add: field_simps)
    from v0 have "0 \<le> \<lfloor>v\<rfloor>" by simp
    then have "(0::rat) \<le> of_int \<lfloor>v\<rfloor>" by simp
    with True have pos: "0 < v" by linarith
    have lt: "v < 2 powi 7" using v100 by simp
    have "binary64 v \<le> of_int (2 * \<lfloor>v\<rfloor> + 1) / 2 ^ 1"
      by (rule binary64_le_dyadic[OF pos _ lt]) (use d in simp_all)
    moreover have "of_int (2 * \<lfloor>v\<rfloor> + 1) / 2 ^ 1 \<le> binary64 v"
      by (rule binary64_ge_dyadic[OF pos _ lt]) (use d in simp_all)
    ultimately have "binary64 v = v" using d by linarith
    then show ?thesis by simp
  qed
  then show ?thesis by (simp add: Math_round_def fdiv_def v_def)
qed

lemma overall_mean:
  assumes "\<forall>w\<in>set ws. 0 \<le> score w \<and> score w \<le> 100" "ws \<noteq> []" "length ws < 2 ^ 32"
  shows "overall ws = \<lfloor>of_int (sum_list (map score ws)) / of_nat (length ws) + 1/2 :: rat\<rfloor>"
proof -
  have "0 \<le> sum_list (map score ws)" using assms(1) by (induction ws) auto
  moreover have "sum_list (map score ws) \<le> 100 * int (length ws)"
    using assms(1) by (induction ws) auto
  moreover have "0 < length ws" using assms(2) by simp
  ultimately have "Math_round (fdiv (of_int (sum_list (map score ws))) (of_nat (length ws)))
      = \<lfloor>of_int (sum_list (map score ws)) / of_nat (length ws) + 1/2 :: rat\<rfloor>"
    using assms(3) by (rule Math_round_mean)
  then show ?thesis using assms(2) by (simp add: overall_def fold_score)
qed

lemma overall_all_100:
  assumes "\<forall>w\<in>set ws. score w = 100" "ws \<noteq> []"
  shows "overall ws = 100"
proof -
  have "sum_list (map score ws) = 100 * int (length ws)"
    using assms(1) by (induction ws) auto
  moreover have "(of_int (100 * int (length ws)) :: rat) / of_nat (length ws) = 100"
    using assms(2) by simp
  ultimately show ?thesis using assms(2)
    by (simp add: overall_def fold_score fdiv_def binary64_100 Math_round_def floor_100_half)
qed

section \<open>Identical token sequences\<close>

lemma insort_key_least: "\<forall>y\<in>set ys. f x \<le> f y \<Longrightarrow> insort_key f x ys = x # ys"
  by (cases ys) simp_all

lemma insort_key_after: "\<forall>a\<in>set as. f a < f x \<Longrightarrow> insort_key f x (as @ bs) = as @ insort_key f x bs"
  by (induction as) auto

lemma sort_key_least_first:
  fixes f :: "'a \<Rightarrow> int"
  assumes "\<forall>x\<in>set xs. k \<le> f x"
  shows "sort_key f xs = filter (\<lambda>x. f x = k) xs @ sort_key f (filter (\<lambda>x. f x \<noteq> k) xs)"
  using assms
proof (induction xs)
  case Nil
  then show ?case by simp
next
  case (Cons x xs)
  let ?A = "filter (\<lambda>x. f x = k) xs" and ?B = "sort_key f (filter (\<lambda>x. f x \<noteq> k) xs)"
  from Cons have ih: "sort_key f xs = ?A @ ?B" by simp
  show ?case
  proof (cases "f x = k")
    case True
    have "\<forall>y\<in>set (?A @ ?B). f x \<le> f y" using Cons.prems True by auto
    then have "insort_key f x (?A @ ?B) = x # ?A @ ?B" by (rule insort_key_least)
    with True ih show ?thesis by simp
  next
    case False
    with Cons.prems have "k < f x" by (simp add: order_less_le)
    then have "\<forall>a\<in>set ?A. f a < f x" by simp
    then have "insort_key f x (?A @ ?B) = ?A @ insort_key f x ?B" by (rule insort_key_after)
    with False ih show ?thesis by simp
  qed
qed

lemma fold_select_skip:
  "\<forall>p\<in>set ps. refIdx p \<in> matchedRef st \<or> spokenIdx p \<in> matchedSpoken st
   \<Longrightarrow> fold select ps st = st"
  by (induction ps) (auto simp: select_def)

lemma select_diagonal:
  "select \<lparr>refIdx = k, spokenIdx = k, similarity = 100\<rparr> (diagonal k) = diagonal (Suc k)"
  by (simp add: select_def diagonal_def MIN_SIMILARITY_THRESHOLD_def atLeast0_lessThan_Suc)

lemma fold_select_row:
  assumes "k < m" "s k k = 100"
  shows "fold select (filter (\<lambda>p. pair.similarity p = 100)
                        (map (\<lambda>j. \<lparr>refIdx = k, spokenIdx = j, similarity = s k j\<rparr>) [0..<m]))
           (diagonal k)
         = diagonal (Suc k)"
proof -
  let ?g = "\<lambda>j. \<lparr>refIdx = k, spokenIdx = j, similarity = s k j\<rparr>"
  let ?P = "\<lambda>p. pair.similarity p = (100::int)"
  have upt: "[0..<m] = [0..<k] @ k # [Suc k..<m]"
    using assms(1) by (metis le_add1 less_imp_add_positive upt_add_eq_append upt_conv_Cons plus_nat.add_0)
  have a: "fold select (filter ?P (map ?g [0..<k])) (diagonal k) = diagonal k"
    by (rule fold_select_skip) (auto simp: diagonal_def)
  have b: "fold select (filter ?P (map ?g [Suc k..<m])) (diagonal (Suc k)) = diagonal (Suc k)"
    by (rule fold_select_skip) (auto simp: diagonal_def)
  have "filter ?P (map ?g [0..<m])
        = filter ?P (map ?g [0..<k]) @ ?g k # filter ?P (map ?g [Suc k..<m])"
    by (subst upt) (simp add: assms(2))
  then show ?thesis
    by (simp only: fold_append o_apply fold_simps a b assms(2) select_diagonal)
qed

lemma fold_select_rows:
  assumes "\<forall>i<m. s i i = 100" "k \<le> m"
  shows "fold select (concat (map (\<lambda>i. filter (\<lambda>p. pair.similarity p = 100)
            (map (\<lambda>j. \<lparr>refIdx = i, spokenIdx = j, similarity = s i j\<rparr>) [0..<m])) [0..<k]))
           (diagonal 0)
         = diagonal k"
  using assms(2)
proof (induction k)
  case 0
  then show ?case by simp
next
  case (Suc k)
  then have km: "k < m" "s k k = 100" using assms(1) by simp_all
  have "fold select (filter (\<lambda>p. pair.similarity p = 100)
                        (map (\<lambda>j. \<lparr>refIdx = k, spokenIdx = j, similarity = s k j\<rparr>) [0..<m]))
           (diagonal k) = diagonal (Suc k)"
    using km by (rule fold_select_row[of k m s])
  with Suc show ?case by simp
qed

lemma greedy_identical: "greedy rs rs = diagonal (length rs)"
proof -
  let ?m = "length rs"
  let ?s = "\<lambda>i j. calculateWordSimilarity (rs ! i) (rs ! j)"
  let ?row = "\<lambda>i. map (\<lambda>j. \<lparr>refIdx = i, spokenIdx = j, similarity = ?s i j\<rparr>) [0..<?m]"
  let ?f = "\<lambda>p :: pair. - pair.similarity p"
  let ?xs = "allPairs rs rs"
  let ?R = "sort_key ?f (filter (\<lambda>p. ?f p \<noteq> - 100) ?xs)"
  have xs: "?xs = concat (map ?row [0..<?m])" by (rule allPairs_row_major)
  have le: "\<forall>p\<in>set ?xs. - 100 \<le> ?f p"
    using similarity_range by (simp add: allPairs_iff)
  have "sortedPairs rs rs = sort_key ?f ?xs"
    by (simp add: sortedPairs_def Array_sort_sort_key)
  also have "\<dots> = filter (\<lambda>p. ?f p = - 100) ?xs @ ?R"
    using le by (rule sort_key_least_first)
  also have "filter (\<lambda>p. ?f p = - 100) ?xs = filter (\<lambda>p. pair.similarity p = 100) ?xs"
    by (rule filter_cong) simp_all
  also have "\<dots> = concat (map (\<lambda>i. filter (\<lambda>p. pair.similarity p = 100) (?row i)) [0..<?m])"
    by (simp only: xs filter_concat map_map o_def)
  finally have sorted: "sortedPairs rs rs
      = concat (map (\<lambda>i. filter (\<lambda>p. pair.similarity p = 100) (?row i)) [0..<?m]) @ ?R" .
  have init: "\<lparr>matches = [], matchedRef = {}, matchedSpoken = {}\<rparr> = diagonal 0"
    by (simp add: diagonal_def)
  have first: "fold select (concat (map (\<lambda>i. filter (\<lambda>p. pair.similarity p = 100) (?row i)) [0..<?m]))
                 (diagonal 0) = diagonal ?m"
    by (rule fold_select_rows[of ?m ?s ?m]) (simp_all add: similarity_refl)
  have rest: "fold select ?R (diagonal ?m) = diagonal ?m"
  proof (rule fold_select_skip, rule ballI)
    fix p assume "p \<in> set ?R"
    then have "p \<in> set ?xs" by simp
    then have "refIdx p < ?m" by (simp add: allPairs_iff)
    then show "refIdx p \<in> matchedRef (diagonal ?m) \<or> spokenIdx p \<in> matchedSpoken (diagonal ?m)"
      by (simp add: diagonal_def)
  qed
  show ?thesis
    unfolding greedy_def sorted init by (simp only: fold_append o_apply first rest)
qed

lemma refEntry_diagonal:
  assumes "i < m"
  shows "refEntry (map (\<lambda>i. \<lparr>refIdx = i, spokenIdx = i, similarity = 100\<rparr>) [0..<m]) i
         = Matched i i 100"
proof -
  let ?d = "\<lambda>i. \<lparr>refIdx = i, spokenIdx = i, similarity = 100::int\<rparr>"
  have "distinct (map refIdx (map ?d [0..<m]))" by (simp add: o_def)
  moreover have "?d i \<in> set (map ?d [0..<m])" using assms by simp
  ultimately have "find (\<lambda>q. refIdx q = refIdx (?d i)) (map ?d [0..<m]) = Some (?d i)"
    by (rule find_refIdx)
  then show ?thesis by (simp add: refEntry_def)
qed

lemma alignTrace_identical: "alignTrace rs rs = map (\<lambda>i. Matched i i 100) [0..<length rs]"
proof -
  have "map (refEntry (matches (diagonal (length rs)))) [0..<length rs]
        = map (\<lambda>i. Matched i i 100) [0..<length rs]"
    by (rule map_cong[OF refl]) (simp add: diagonal_def refEntry_diagonal)
  moreover have "filter (\<lambda>j. j \<notin> matchedSpoken (diagonal (length rs))) [0..<length rs] = []"
    by (simp add: diagonal_def)
  ultimately show ?thesis by (simp add: alignTrace_eq greedy_identical)
qed

lemma alignWords_similarity_range:
  assumes "a \<in> set (alignWords rs ss)"
  shows "0 \<le> aligned.similarity a \<and> aligned.similarity a \<le> 100"
proof -
  from assms obtain e where e: "e \<in> set (alignTrace rs ss)" "a = entryOf rs ss e"
    by (auto simp: alignWords_trace)
  show ?thesis
  proof (cases e)
    case (Matched i j s)
    with e(1) have "\<lparr>refIdx = i, spokenIdx = j, similarity = s\<rparr> \<in> set (matches (greedy rs ss))"
      by (simp add: Matched_in_trace_iff)
    from greedy_facts(5)[OF this] have "s = calculateWordSimilarity (rs ! i) (ss ! j)" by simp
    with similarity_range e(2) Matched show ?thesis by simp
  next
    case (Missing i)
    with e(2) show ?thesis by simp
  next
    case (Extra j)
    with e(2) show ?thesis by simp
  qed
qed

text \<open>
  Claim C6.  The aggregate score of the empty list is 0, and the entry point returns the
  aggregate of its word scores.  Every entry of an alignment has a similarity between 0
  and 100; for a non-empty list of such entries (a JavaScript array has fewer than \<open>2\<^sup>3\<^sup>2\<close>
  elements) the aggregate is the arithmetic mean of all similarities, those of Missing and
  Extra entries included, rounded to the nearest integer, half up.  When the reference
  and the spoken tokens are the same non-empty sequence the aggregate is 100.
\<close>

theorem overall_score:
  "overall [] = 0 \<and>
   overallScore (calculateLevenshteinScores nfc lower t r)
     = overall (wordScores (calculateLevenshteinScores nfc lower t r)) \<and>
   (\<forall>a\<in>set (alignWords rs ss). 0 \<le> aligned.similarity a \<and> aligned.similarity a \<le> 100) \<and>
   ((\<forall>w\<in>set ws. 0 \<le> score w \<and> score w \<le> 100) \<and> ws \<noteq> [] \<and> length ws < 2 ^ 32 \<longrightarrow>
      overall ws = \<lfloor>of_int (sum_list (map score ws)) / of_nat (length ws) + 1/2 :: rat\<rfloor>) \<and>
   (rs \<noteq> [] \<longrightarrow>
      overall (map (\<lambda>a. \<lparr>word = refWord a, transcribedWord = spokenWord a,
                          score = aligned.similarity a\<rparr>) (alignWords rs rs)) = 100)"
proof (intro conjI impI ballI)
  show "overall [] = 0" by (simp add: overall_def)
  show "overallScore (calculateLevenshteinScores nfc lower t r)
        = overall (wordScores (calculateLevenshteinScores nfc lower t r))"
    by (simp add: calculateLevenshteinScores_def Let_def)
next
  fix a assume "a \<in> set (alignWords rs ss)"
  then show "0 \<le> aligned.similarity a" "aligned.similarity a \<le> 100"
    using alignWords_similarity_range by simp_all
next
  assume "(\<forall>w\<in>set ws. 0 \<le> score w \<and> score w \<le> 100) \<and> ws \<noteq> [] \<and> length ws < 2 ^ 32"
  then show "overall ws = \<lfloor>of_int (sum_list (map score ws)) / of_nat (length ws) + 1/2 :: rat\<rfloor>"
    by (intro overall_mean) simp_all
next
  assume "rs \<noteq> []"
  then show "overall (map (\<lambda>a. \<lparr>word = refWord a, transcribedWord = spokenWord a,
                          score = aligned.similarity a\<rparr>) (alignWords rs rs)) = 100"
    by (intro overall_all_100) (auto simp: alignWords_trace alignTrace_identical)
qed

theorem overall_score_witness:
  "overall [\<lparr>word = [0x61], transcribedWord = [0x61], score = 100\<rparr>,
            \<lparr>word = [0x62], transcribedWord = ascii ''(missing)'', score = 0\<rparr>,
            \<lparr>word = [0x63], transcribedWord = [0x78], score = 67\<rparr>] = 56 \<and>
   overall (map (\<lambda>a. \<lparr>word = refWord a, transcribedWord = spokenWord a,
                       score = aligned.similarity a\<rparr>)
                (alignWords [[0x61], [0x62, 0x63]] [[0x61], [0x62, 0x63]])) = 100"
proof -
  have f: "\<lfloor>167 / 3 + 1 / 2 :: rat\<rfloor> = 56" "\<lfloor>337 / 6 :: rat\<rfloor> = 56" by code_simp+
  from overall_score[where nfc = "\<lambda>s. s" and lower = "\<lambda>s. s" and t = "[]" and r = "[]"
      and ss = "[]" and rs = "[[0x61], [0x62, 0x63]]"
      and ws = "[\<lparr>word = [0x61], transcribedWord = [0x61], score = 100\<rparr>,
        \<lparr>word = [0x62], transcribedWord = ascii ''(missing)'', score = 0\<rparr>,
        \<lparr>word = [0x63], transcribedWord = [0x78], score = 67\<rparr>]"]
  show ?thesis by (simp add: f)
qed

section \<open>The entry point\<close>

text \<open>
  Claim C10.  The \<open>transcription\<close> field of the result is the transcription argument
  itself, whatever the two built-ins do, while the word scores are built from the tokens
  of the normalised texts.
\<close>

theorem transcription_unchanged:
  "transcription (calculateLevenshteinScores nfc lower t r) = t \<and>
   wordScores (calculateLevenshteinScores nfc lower t r)
     = map (\<lambda>a. \<lparr>word = refWord a, transcribedWord = spokenWord a, score = aligned.similarity a\<rparr>)
           (alignWords (splitIntoWords nfc lower r) (splitIntoWords nfc lower t))"
  by (simp add: calculateLevenshteinScores_def Let_def)

theorem transcription_unchanged_witness:
  "transcription (calculateLevenshteinScores (\<lambda>s. s) (\<lambda>s. s) [0x20, 0x61, 0x2E] [0x61])
     = [0x20, 0x61, 0x2E] \<and>
   wordScores (calculateLevenshteinScores (\<lambda>s. s) (\<lambda>s. s) [0x20, 0x61, 0x2E] [0x61])
     = [\<lparr>word = [0x61], transcribedWord = [0x61], score = 100\<rparr>]"
proof -
  have w: "splitIntoWords (\<lambda>s. s) (\<lambda>s. s) [0x20, 0x61, 0x2E] = [[0x61]]"
    "splitIntoWords (\<lambda>s. s) (\<lambda>s. s) [0x61] = [[0x61]]"
    by code_simp+
  have a: "alignWords [[0x61]] [[0x61]]
           = [\<lparr>refWord = [0x61], spokenWord = [0x61], similarity = 100\<rparr>]"
    by code_simp
  from transcription_unchanged[of "\<lambda>s. s" "\<lambda>s. s" "[0x20, 0x61, 0x2E]" "[0x61]"]
  show ?thesis by (simp add: w a)
qed

end
